theory Spec2Isabelle
  imports Complex_Main
begin

section \<open>JavaScript values used by the monitor\<close>

text \<open>
  The monitor reads its settings from \<^verbatim>\<open>process.env\<close>, where every value is a string
  (a default such as \<^verbatim>\<open>ATTEMPTS_PER_CYCLE = 3\<close> is turned into the string \<^verbatim>\<open>"3"\<close> by
  \<^verbatim>\<open>parseInt\<close> before it is read). Only the settings that the control flow, the waits or
  the sent messages depend on are fields of the record; host, port, timeout, secure flag and
  heartbeat address only parameterise library calls, whose outcomes are inputs of the
  model.
\<close>

record config =
  RCON_PASSWORD :: string
  ATTEMPTS_PER_CYCLE :: string
  JITTER_MS :: string
  CONSECUTIVE_FAILURES_THRESHOLD :: string
  RCON_COMMAND :: string
  RCON_TRANSPORT :: string
  CHECK_INTERVAL :: string

text \<open>The defaults of the destructuring assignment (lines 6-19 of the dual-transport file).\<close>

definition default_config :: "string \<Rightarrow> config" where
  "default_config password =
     \<lparr>RCON_PASSWORD = password, ATTEMPTS_PER_CYCLE = ''3'', JITTER_MS = ''300'',
      CONSECUTIVE_FAILURES_THRESHOLD = ''2'', RCON_COMMAND = ''status'',
      RCON_TRANSPORT = ''web'', CHECK_INTERVAL = ''60''\<rparr>"

text \<open>
  \<^verbatim>\<open>parseInt(s, 10)\<close>: leading (ASCII) white space is skipped, one sign is read, then the
  longest run of decimal digits; with no digit the result is \<^verbatim>\<open>NaN\<close>, here \<open>None\<close>. The
  result is an unbounded integer (a double is exact up to \<open>2^53\<close>), and so is the counter
  of consecutive failures below.
\<close>

definition is_space :: "char \<Rightarrow> bool" where
  "is_space c = ((of_char c :: nat) \<in> {9, 10, 11, 12, 13, 32})"

definition is_digit :: "char \<Rightarrow> bool" where
  "is_digit c = (48 \<le> (of_char c :: nat) \<and> (of_char c :: nat) \<le> 57)"

definition digit_value :: "char \<Rightarrow> int" where
  "digit_value c = int (of_char c) - 48"

definition digits_value :: "string \<Rightarrow> int" where
  "digits_value ds = foldl (\<lambda>acc c. 10 * acc + digit_value c) 0 ds"

definition parseInt :: "string \<Rightarrow> int option" where
  "parseInt s =
     (let t = dropWhile is_space s;
          negative = (t \<noteq> [] \<and> hd t = CHR ''-'');
          u = (if t \<noteq> [] \<and> (hd t = CHR ''-'' \<or> hd t = CHR ''+'') then tl t else t);
          ds = takeWhile is_digit u
      in if ds = [] then None
         else Some (if negative then - digits_value ds else digits_value ds))"

text \<open>Comparisons of a number with a possibly-\<^verbatim>\<open>NaN\<close> number: any comparison with \<^verbatim>\<open>NaN\<close> is false.\<close>

definition num_le :: "int \<Rightarrow> int option \<Rightarrow> bool" where
  "num_le a b = (case b of None \<Rightarrow> False | Some k \<Rightarrow> a \<le> k)"

definition num_lt :: "int \<Rightarrow> int option \<Rightarrow> bool" where
  "num_lt a b = (case b of None \<Rightarrow> False | Some k \<Rightarrow> a < k)"

definition num_ge :: "int \<Rightarrow> int option \<Rightarrow> bool" where
  "num_ge a b = (case b of None \<Rightarrow> False | Some k \<Rightarrow> a \<ge> k)"

text \<open>
  \<^verbatim>\<open>String.prototype.toLowerCase\<close> on the letters that decide the comparison with
  \<^verbatim>\<open>'classic'\<close> and \<^verbatim>\<open>'web'\<close>: \<^verbatim>\<open>A\<close>-\<^verbatim>\<open>Z\<close> are mapped to \<^verbatim>\<open>a\<close>-\<^verbatim>\<open>z\<close>, every other byte is kept.
  No character outside ASCII has one of the letters of the two names as its lower case, so
  the result is one of the two names exactly when JavaScript's is.
\<close>

definition toLowerCase_char :: "char \<Rightarrow> char" where
  "toLowerCase_char c =
     (if 65 \<le> (of_char c :: nat) \<and> (of_char c :: nat) \<le> 90
      then char_of ((of_char c :: nat) + 32) else c)"

definition toLowerCase :: "string \<Rightarrow> string" where
  "toLowerCase s = map toLowerCase_char s"

text \<open>An \<^verbatim>\<open>Error\<close> object, with the three properties the catch block reads.\<close>

datatype js_error = JsError (message: string) (code: "string option") (name: string)

definition new_Error :: "string \<Rightarrow> js_error" where
  "new_Error m = JsError m None ''Error''"

text \<open>
  The value of a property of a parsed JSON frame. Arrays and objects are not told
  apart: the handler only compares with numbers and tests for truth.
\<close>

datatype jsval = JUndefined | JNull | JBool bool | JNum real | JStr string | JObject

fun truthy :: "jsval \<Rightarrow> bool" where
  "truthy JUndefined = False"
| "truthy JNull = False"
| "truthy (JBool b) = b"
| "truthy (JNum x) = (x \<noteq> 0)"
| "truthy (JStr s) = (s \<noteq> [])"
| "truthy JObject = True"

section \<open>Observable effects\<close>

text \<open>A frame sent on the socket: \<^verbatim>\<open>{Identifier, Message, Name, Type}\<close>.\<close>

datatype rcon_message = RconMessage real string string string

text \<open>
  The effects of a cycle, in the order in which the code performs them: library calls,
  console lines (by kind, with the values they print) and waits.
\<close>

datatype event =
    RconConnect
  | RconSend string
  | RconEnd
  | WsConnect
  | WsSend rcon_message
  | LogUpClassic string
  | LogUpWeb string
  | HttpPost
  | LogHeartbeat
  | LogAttempt int js_error
  | Sleep "real option"
  | LogDown int
  | LogWarn int

section \<open>Classic RCON attempt\<close>

text \<open>
  What the \<^verbatim>\<open>rcon-client\<close> library answers during one attempt: whether
  \<^verbatim>\<open>Rcon.connect\<close> rejects, what \<^verbatim>\<open>rcon.send\<close> yields, and whether the \<open>n\<close>-th call of
  \<^verbatim>\<open>rcon.end\<close> (counted from 0) rejects.
\<close>

record classic_env =
  connect_result :: "js_error option"
  send_result :: "js_error + string"
  end_result :: "nat \<Rightarrow> js_error option"

definition checkServerClassicRCON :: "config \<Rightarrow> classic_env \<Rightarrow> (js_error + bool) \<times> event list" where
  "checkServerClassicRCON cfg env =
     (case connect_result env of
        Some e \<Rightarrow> (Inl e, [RconConnect])
      | None \<Rightarrow>
          (case send_result env of
             Inl cmdError \<Rightarrow>
               (case end_result env 0 of
                  Some e \<Rightarrow> (Inl e, [RconConnect, RconSend (RCON_COMMAND cfg), RconEnd])
                | None \<Rightarrow> (Inl cmdError, [RconConnect, RconSend (RCON_COMMAND cfg), RconEnd]))
           | Inr response \<Rightarrow>
               (case end_result env 0 of
                  None \<Rightarrow>
                    (Inr True,
                     [RconConnect, RconSend (RCON_COMMAND cfg),
                      LogUpClassic (take 100 response), RconEnd])
                | Some cmdError \<Rightarrow>
                    (case end_result env 1 of
                       Some e \<Rightarrow>
                         (Inl e,
                          [RconConnect, RconSend (RCON_COMMAND cfg),
                           LogUpClassic (take 100 response), RconEnd, RconEnd])
                     | None \<Rightarrow>
                         (Inl cmdError,
                          [RconConnect, RconSend (RCON_COMMAND cfg),
                           LogUpClassic (take 100 response), RconEnd, RconEnd])))))"

section \<open>WebRCON attempt\<close>

text \<open>
  A received frame after \<^verbatim>\<open>JSON.parse(data.toString())\<close>: the text is not JSON
  (\<open>Malformed\<close>, with the parser's message), it is the JSON value \<^verbatim>\<open>null\<close>, on which
  reading \<^verbatim>\<open>msg.Identifier\<close> throws, or it is any other value, of which the handler reads
  the properties \<^verbatim>\<open>Identifier\<close> and \<^verbatim>\<open>Message\<close> (both undefined on a number, a string
  or an array).
\<close>

datatype frame = Malformed string | NullFrame | Msg (Identifier: jsval) (Message: jsval)

text \<open>
  The events that the event loop delivers to the callbacks registered by the promise
  executor: the four socket events and the expiry of the timer of line 67.
\<close>

datatype ws_event = EvOpen | EvMessage frame | EvClose | EvError js_error | EvTimeout

text \<open>
  The world of one WebRCON attempt: whether the \<^verbatim>\<open>WebSocket\<close> constructor throws, the
  events in their order of delivery, and the value of \<^verbatim>\<open>Date.now()\<close>, which is read at
  most once per attempt.
\<close>

record ws_env =
  constructor_error :: "js_error option"
  events :: "ws_event list"
  now :: real

text \<open>
  The variables of the executor's closure. \<open>outcome\<close> is the state of the promise: every
  call of \<^verbatim>\<open>resolve\<close> or \<^verbatim>\<open>reject\<close> in the source directly follows a call of
  \<^verbatim>\<open>cleanup()\<close>, which clears the timer and removes all listeners, so once the promise is
  settled no callback runs again. What the socket emits after its listeners are removed
  reaches no callback of the executor; \<open>uncaught_exception\<close> below says what becomes of it.
\<close>

record ws_state =
  authSuccess :: bool
  commandId :: "real option"
  outcome :: "(js_error + bool) option"

definition ws_initial :: ws_state where
  "ws_initial = \<lparr>authSuccess = False, commandId = None, outcome = None\<rparr>"

definition settle :: "js_error + bool \<Rightarrow> ws_state \<Rightarrow> ws_state" where
  "settle r st = st\<lparr>outcome := Some r\<rparr>"

definition null_TypeError :: string where
  "null_TypeError = ''Cannot read properties of null (reading 'Identifier')''"

definition substring_TypeError :: string where
  "substring_TypeError = ''msg.Message.substring is not a function''"

text \<open>
  \<^verbatim>\<open>msg.Message ? msg.Message.substring(0, 100) : 'empty'\<close>: a value that is true but
  not a string has no \<^verbatim>\<open>substring\<close> method, and the call throws a \<^verbatim>\<open>TypeError\<close>.
\<close>

definition preview_of :: "jsval \<Rightarrow> string + string" where
  "preview_of m =
     (if truthy m then (case m of JStr s \<Rightarrow> Inr (take 100 s) | _ \<Rightarrow> Inl substring_TypeError)
      else Inr ''empty'')"

text \<open>\<^verbatim>\<open>msg.Identifier === commandId\<close>, where \<^verbatim>\<open>commandId\<close> is undefined until it is assigned.\<close>

definition matches_commandId :: "jsval \<Rightarrow> real option \<Rightarrow> bool" where
  "matches_commandId v c = (case c of None \<Rightarrow> v = JUndefined | Some n \<Rightarrow> v = JNum n)"

definition parse_error :: "string \<Rightarrow> js_error" where
  "parse_error m = new_Error (''WebRCON parse error: '' @ m)"

text \<open>
  The \<^verbatim>\<open>'message'\<close> callback (lines 92-120). Every exception inside it is caught and
  rejects the promise with a parse error; \<^verbatim>\<open>ws.send\<close> is taken not to throw.
\<close>

definition on_message :: "config \<Rightarrow> real \<Rightarrow> ws_state \<Rightarrow> frame \<Rightarrow> ws_state \<times> event list" where
  "on_message cfg t st fr =
     (case fr of
        Malformed m \<Rightarrow> (settle (Inl (parse_error m)) st, [])
      | NullFrame \<Rightarrow> (settle (Inl (parse_error null_TypeError)) st, [])
      | Msg ident msg \<Rightarrow>
          if \<not> authSuccess st \<and> ident = JNum (- 1) then
            (st\<lparr>authSuccess := True, commandId := Some t\<rparr>,
             [WsSend (RconMessage t (RCON_COMMAND cfg) ''monitor'' ''command'')])
          else if authSuccess st \<and> matches_commandId ident (commandId st) then
            (case preview_of msg of
               Inl m \<Rightarrow> (settle (Inl (parse_error m)) st, [])
             | Inr responsePreview \<Rightarrow> (settle (Inr True) st, [LogUpWeb responsePreview]))
          else (st, []))"

text \<open>One delivered event, handled by the callback registered for it.\<close>

definition on_event :: "config \<Rightarrow> real \<Rightarrow> ws_state \<Rightarrow> ws_event \<Rightarrow> ws_state \<times> event list" where
  "on_event cfg t st ev =
     (case ev of
        EvTimeout \<Rightarrow> (settle (Inl (new_Error ''WebRCON timeout'')) st, [])
      | EvError err \<Rightarrow> (settle (Inl err) st, [])
      | EvOpen \<Rightarrow> (st, [WsSend (RconMessage 1 (RCON_PASSWORD cfg) ''monitor'' ''auth'')])
      | EvMessage fr \<Rightarrow> on_message cfg t st fr
      | EvClose \<Rightarrow>
          if \<not> authSuccess st
          then (settle (Inl (new_Error ''WebRCON connection closed before auth'')) st, [])
          else (st, []))"

text \<open>
  The promise awaited by the caller. Events are handled until the promise is settled.
  The timer of line 67 is cleared by \<^verbatim>\<open>cleanup()\<close> only, so when the delivered events
  have not settled the promise the timer expires and rejects it.
\<close>

fun ws_run :: "config \<Rightarrow> real \<Rightarrow> ws_state \<Rightarrow> ws_event list \<Rightarrow> (js_error + bool) \<times> event list" where
  "ws_run cfg t st [] =
     (case outcome st of
        Some r \<Rightarrow> (r, [])
      | None \<Rightarrow> (Inl (new_Error ''WebRCON timeout''), []))"
| "ws_run cfg t st (ev # evs) =
     (case outcome st of
        Some r \<Rightarrow> (r, [])
      | None \<Rightarrow>
          (let (st', out) = on_event cfg t st ev;
               (r, out') = ws_run cfg t st' evs
           in (r, out @ out')))"

definition checkServerWebRCON :: "config \<Rightarrow> ws_env \<Rightarrow> (js_error + bool) \<times> event list" where
  "checkServerWebRCON cfg env =
     (case constructor_error env of
        Some err \<Rightarrow> (Inl err, [WsConnect])
      | None \<Rightarrow>
          (let (r, out) = ws_run cfg (now env) ws_initial (events env)
           in (r, WsConnect # out)))"

text \<open>
  \<^verbatim>\<open>ws.readyState\<close>, which \<^verbatim>\<open>cleanup()\<close> reads: a socket is \<^verbatim>\<open>CONNECTING\<close> from its
  construction until the opening handshake ends, \<^verbatim>\<open>OPEN\<close> when it emits \<^verbatim>\<open>'open'\<close>,
  \<^verbatim>\<open>CLOSING\<close> when it emits \<^verbatim>\<open>'error'\<close> and \<^verbatim>\<open>CLOSED\<close> when it emits \<^verbatim>\<open>'close'\<close>.
  Messages and the timer of line 67 do not change it.
\<close>

datatype ready_state = CONNECTING | OPEN | CLOSING | CLOSED

fun emitted :: "ready_state \<Rightarrow> ws_event \<Rightarrow> ready_state" where
  "emitted s EvOpen = OPEN"
| "emitted s (EvError err) = CLOSING"
| "emitted s EvClose = CLOSED"
| "emitted s (EvMessage fr) = s"
| "emitted s EvTimeout = s"

definition readyState :: "ws_event list \<Rightarrow> ready_state" where
  "readyState evs = foldl emitted CONNECTING evs"

text \<open>
  \<^verbatim>\<open>cleanup()\<close> (lines 57-65). \<^verbatim>\<open>timeoutId\<close> is assigned on line 67, before any call, so
  the timer is always cleared. When \<^verbatim>\<open>ws\<close> is assigned (\<open>Some\<close>, with its
  \<^verbatim>\<open>readyState\<close>) every listener is removed from the socket, the \<^verbatim>\<open>'error'\<close> listener
  of lines 77-80 among them, and \<^verbatim>\<open>ws.close()\<close> is called only on a socket that is
  \<^verbatim>\<open>OPEN\<close>: a socket that is still \<^verbatim>\<open>CONNECTING\<close> is left to go on with its handshake.
\<close>

record cleanup_effects =
  listeners_removed :: bool
  close_called :: bool

definition cleanup :: "ready_state option \<Rightarrow> cleanup_effects" where
  "cleanup ws =
     (case ws of
        None \<Rightarrow> \<lparr>listeners_removed = False, close_called = False\<rparr>
      | Some s \<Rightarrow> \<lparr>listeners_removed = True, close_called = (s = OPEN)\<rparr>)"

text \<open>
  The events that reach a callback: those delivered while the promise is pending, as in
  \<open>ws_run\<close>. The last of them is the one whose callback calls \<^verbatim>\<open>cleanup()\<close>.
\<close>

fun ws_handled :: "config \<Rightarrow> real \<Rightarrow> ws_state \<Rightarrow> ws_event list \<Rightarrow> ws_event list" where
  "ws_handled cfg t st [] = []"
| "ws_handled cfg t st (ev # evs) =
     (case outcome st of
        Some r \<Rightarrow> []
      | None \<Rightarrow> ev # ws_handled cfg t (fst (on_event cfg t st ev)) evs)"

text \<open>
  The call of \<^verbatim>\<open>cleanup()\<close> that precedes the settlement of the promise. When the
  constructor throws, \<^verbatim>\<open>ws\<close> is still undefined in the \<^verbatim>\<open>catch\<close> of lines 129-132.
\<close>

definition settling_cleanup :: "config \<Rightarrow> ws_env \<Rightarrow> cleanup_effects" where
  "settling_cleanup cfg env =
     (case constructor_error env of
        Some err \<Rightarrow> cleanup None
      | None \<Rightarrow> cleanup (Some (readyState (ws_handled cfg (now env) ws_initial (events env)))))"

text \<open>
  What the socket emits after the settlement. An emitter that emits \<^verbatim>\<open>'error'\<close> while no
  listener is registered for it throws the error; thrown from the event loop, outside the
  promise and outside every \<^verbatim>\<open>try\<close> block, it is an uncaught exception, which ends the
  process. The other events are dropped when they have no listener.
\<close>

fun first_error :: "ws_event list \<Rightarrow> js_error option" where
  "first_error [] = None"
| "first_error (EvError err # evs) = Some err"
| "first_error (EvOpen # evs) = first_error evs"
| "first_error (EvMessage fr # evs) = first_error evs"
| "first_error (EvClose # evs) = first_error evs"
| "first_error (EvTimeout # evs) = first_error evs"

definition uncaught_exception :: "config \<Rightarrow> ws_env \<Rightarrow> js_error option" where
  "uncaught_exception cfg env =
     (if listeners_removed (settling_cleanup cfg env)
      then first_error
             (drop (length (ws_handled cfg (now env) ws_initial (events env))) (events env))
      else None)"

section \<open>The check cycle (dual-transport file)\<close>

text \<open>
  The world of one attempt: the answers of the classic library, the WebRCON world, whether
  \<^verbatim>\<open>axios.post\<close> rejects, and the value of \<^verbatim>\<open>Math.random()\<close>. Only the part that the
  attempt reaches is read.
\<close>

record attempt_env =
  classic :: classic_env
  web :: ws_env
  post_result :: "js_error option"
  random :: real

text \<open>
  Lines 141-147: the liveness exchange over the configured transport. \<open>transport\<close> is the
  lower-cased setting; any other value than the two known ones throws.
\<close>

definition exchange :: "config \<Rightarrow> string \<Rightarrow> attempt_env \<Rightarrow> (js_error + bool) \<times> event list" where
  "exchange cfg transport env =
     (if transport = ''classic'' then checkServerClassicRCON cfg (classic env)
      else if transport = ''web'' then checkServerWebRCON cfg (web env)
      else (Inl (new_Error (''Unknown RCON_TRANSPORT: '' @ RCON_TRANSPORT cfg)), []))"

text \<open>
  The uncaught exception that the socket of an attempt raises after the attempt is over:
  only the WebRCON transport leaves a socket behind.
\<close>

definition attempt_uncaught :: "config \<Rightarrow> attempt_env \<Rightarrow> js_error option" where
  "attempt_uncaught cfg env =
     (if toLowerCase (RCON_TRANSPORT cfg) = ''web'' then uncaught_exception cfg (web env)
      else None)"

text \<open>
  The body of the \<^verbatim>\<open>try\<close> block (lines 141-154): its completion (\<open>Inr\<close>: the function
  returns \<^verbatim>\<open>true\<close>; \<open>Inl\<close>: the error thrown), the value of \<^verbatim>\<open>consecutiveFailures\<close>
  afterwards, and the effects.
\<close>

definition try_block :: "config \<Rightarrow> string \<Rightarrow> attempt_env \<Rightarrow> int \<Rightarrow> (js_error + bool) \<times> int \<times> event list" where
  "try_block cfg transport env consecutiveFailures =
     (case exchange cfg transport env of
        (Inl err, out) \<Rightarrow> (Inl err, consecutiveFailures, out)
      | (Inr _, out) \<Rightarrow>
          (case post_result env of
             Some err \<Rightarrow> (Inl err, 0, out @ [HttpPost])
           | None \<Rightarrow> (Inr True, 0, out @ [HttpPost, LogHeartbeat])))"

text \<open>\<^verbatim>\<open>Math.random() * parseInt(JITTER_MS, 10)\<close>.\<close>

definition jitter :: "config \<Rightarrow> attempt_env \<Rightarrow> real option" where
  "jitter cfg env = map_option (\<lambda>j. random env * real_of_int j) (parseInt (JITTER_MS cfg))"

text \<open>The \<^verbatim>\<open>catch\<close> block (lines 155-168).\<close>

definition catch_block :: "config \<Rightarrow> attempt_env \<Rightarrow> int \<Rightarrow> js_error \<Rightarrow> event list" where
  "catch_block cfg env attempt err =
     LogAttempt attempt (JsError (message err) (code err) (name err)) #
     (if num_lt attempt (parseInt (ATTEMPTS_PER_CYCLE cfg)) then [Sleep (jitter cfg env)] else [])"

text \<open>
  The \<^verbatim>\<open>for\<close> loop from a given value of \<^verbatim>\<open>attempt\<close>: whether the function returned
  \<^verbatim>\<open>true\<close> from inside the loop, the counter, and the effects. \<open>env\<close> gives the world of
  each attempt by its number.
\<close>

function attempts :: "config \<Rightarrow> string \<Rightarrow> (int \<Rightarrow> attempt_env) \<Rightarrow> int \<Rightarrow> int \<Rightarrow> bool \<times> int \<times> event list" where
  "attempts cfg transport env attempt consecutiveFailures =
     (if num_le attempt (parseInt (ATTEMPTS_PER_CYCLE cfg)) then
        (case try_block cfg transport (env attempt) consecutiveFailures of
           (Inr _, cf, out) \<Rightarrow> (True, cf, out)
         | (Inl err, cf, out) \<Rightarrow>
             (let (returned, cf', out') = attempts cfg transport env (attempt + 1) cf
              in (returned, cf', out @ catch_block cfg (env attempt) attempt err @ out')))
      else (False, consecutiveFailures, []))"
  by pat_completeness auto
termination
  by (relation "measure (\<lambda>(cfg, transport, env, attempt, cf).
        case parseInt (ATTEMPTS_PER_CYCLE cfg) of None \<Rightarrow> 0 | Some k \<Rightarrow> nat (k + 1 - attempt))")
     (auto simp: num_le_def split: option.splits)

declare attempts.simps [simp del]

text \<open>Lines 173-177: which of the two lines is printed after a failed cycle.\<close>

definition classify :: "config \<Rightarrow> int \<Rightarrow> event" where
  "classify cfg consecutiveFailures =
     (if num_ge consecutiveFailures (parseInt (CONSECUTIVE_FAILURES_THRESHOLD cfg))
      then LogDown consecutiveFailures else LogWarn consecutiveFailures)"

text \<open>
  One call of \<^verbatim>\<open>checkServerWithRetry\<close> with the counter at \<open>consecutiveFailures\<close>: the
  settlement of the returned promise (\<open>Inr\<close> the boolean, \<open>Inl\<close> a rejection), the counter
  afterwards, and the effects.
\<close>

definition checkServerWithRetry :: "config \<Rightarrow> (int \<Rightarrow> attempt_env) \<Rightarrow> int \<Rightarrow> (js_error + bool) \<times> int \<times> event list" where
  "checkServerWithRetry cfg env consecutiveFailures =
     (let transport = toLowerCase (RCON_TRANSPORT cfg);
          (returned, cf, out) = attempts cfg transport env 1 consecutiveFailures
      in if returned then (Inr True, cf, out)
         else (Inr False, cf + 1, out @ [classify cfg (cf + 1)]))"

text \<open>
  The first cycles of the endless \<^verbatim>\<open>while (true)\<close> of \<^verbatim>\<open>loop\<close>, one world per cycle: the
  counter after them and the effects (the lines printed once at startup are left out). A
  rejection of \<^verbatim>\<open>checkServerWithRetry\<close> would be thrown by \<^verbatim>\<open>await\<close> and end the loop.
\<close>

fun loop :: "config \<Rightarrow> (int \<Rightarrow> attempt_env) list \<Rightarrow> int \<Rightarrow> int \<times> event list" where
  "loop cfg [] consecutiveFailures = (consecutiveFailures, [])"
| "loop cfg (env # envs) consecutiveFailures =
     (case checkServerWithRetry cfg env consecutiveFailures of
        (Inl err, cf, out) \<Rightarrow> (cf, out)
      | (Inr _, cf, out) \<Rightarrow>
          (let (cf', out') = loop cfg envs cf
           in (cf', out @ Sleep (map_option (\<lambda>n. real_of_int (n * 1000)) (parseInt (CHECK_INTERVAL cfg))) # out')))"

section \<open>The check cycle (classic-only file)\<close>

text \<open>
  The \<^verbatim>\<open>try\<close> block of \<^verbatim>\<open>src/index.js\<close> (lines 26-49): the counter is reset and the
  heartbeat is posted inside the inner \<^verbatim>\<open>try\<close>, whose \<^verbatim>\<open>catch\<close> ends the connection
  again and rethrows.
\<close>

definition try_block_index :: "config \<Rightarrow> attempt_env \<Rightarrow> int \<Rightarrow> (js_error + bool) \<times> int \<times> event list" where
  "try_block_index cfg env consecutiveFailures =
     (case connect_result (classic env) of
        Some e \<Rightarrow> (Inl e, consecutiveFailures, [RconConnect])
      | None \<Rightarrow>
          (case send_result (classic env) of
             Inl cmdError \<Rightarrow>
               (case end_result (classic env) 0 of
                  Some e \<Rightarrow>
                    (Inl e, consecutiveFailures,
                     [RconConnect, RconSend (RCON_COMMAND cfg), RconEnd])
                | None \<Rightarrow>
                    (Inl cmdError, consecutiveFailures,
                     [RconConnect, RconSend (RCON_COMMAND cfg), RconEnd]))
           | Inr response \<Rightarrow>
               (case end_result (classic env) 0 of
                  Some cmdError \<Rightarrow>
                    (case end_result (classic env) 1 of
                       Some e \<Rightarrow>
                         (Inl e, consecutiveFailures,
                          [RconConnect, RconSend (RCON_COMMAND cfg),
                           LogUpClassic (take 100 response), RconEnd, RconEnd])
                     | None \<Rightarrow>
                         (Inl cmdError, consecutiveFailures,
                          [RconConnect, RconSend (RCON_COMMAND cfg),
                           LogUpClassic (take 100 response), RconEnd, RconEnd]))
                | None \<Rightarrow>
                    (case post_result env of
                       None \<Rightarrow>
                         (Inr True, 0,
                          [RconConnect, RconSend (RCON_COMMAND cfg),
                           LogUpClassic (take 100 response), RconEnd, HttpPost, LogHeartbeat])
                     | Some cmdError \<Rightarrow>
                         (case end_result (classic env) 1 of
                            Some e \<Rightarrow>
                              (Inl e, 0,
                               [RconConnect, RconSend (RCON_COMMAND cfg),
                                LogUpClassic (take 100 response), RconEnd, HttpPost, RconEnd])
                          | None \<Rightarrow>
                              (Inl cmdError, 0,
                               [RconConnect, RconSend (RCON_COMMAND cfg),
                                LogUpClassic (take 100 response), RconEnd, HttpPost, RconEnd]))))))"

function attempts_index :: "config \<Rightarrow> (int \<Rightarrow> attempt_env) \<Rightarrow> int \<Rightarrow> int \<Rightarrow> bool \<times> int \<times> event list" where
  "attempts_index cfg env attempt consecutiveFailures =
     (if num_le attempt (parseInt (ATTEMPTS_PER_CYCLE cfg)) then
        (case try_block_index cfg (env attempt) consecutiveFailures of
           (Inr _, cf, out) \<Rightarrow> (True, cf, out)
         | (Inl err, cf, out) \<Rightarrow>
             (let (returned, cf', out') = attempts_index cfg env (attempt + 1) cf
              in (returned, cf', out @ catch_block cfg (env attempt) attempt err @ out')))
      else (False, consecutiveFailures, []))"
  by pat_completeness auto
termination
  by (relation "measure (\<lambda>(cfg, env, attempt, cf).
        case parseInt (ATTEMPTS_PER_CYCLE cfg) of None \<Rightarrow> 0 | Some k \<Rightarrow> nat (k + 1 - attempt))")
     (auto simp: num_le_def split: option.splits)

declare attempts_index.simps [simp del]

definition checkServerWithRetry_index :: "config \<Rightarrow> (int \<Rightarrow> attempt_env) \<Rightarrow> int \<Rightarrow> (js_error + bool) \<times> int \<times> event list" where
  "checkServerWithRetry_index cfg env consecutiveFailures =
     (let (returned, cf, out) = attempts_index cfg env 1 consecutiveFailures
      in if returned then (Inr True, cf, out)
         else (Inr False, cf + 1, out @ [classify cfg (cf + 1)]))"

text \<open>The loop of \<^verbatim>\<open>src/index.js\<close> (lines 77-90) is the same as the one above.\<close>

fun loop_index :: "config \<Rightarrow> (int \<Rightarrow> attempt_env) list \<Rightarrow> int \<Rightarrow> int \<times> event list" where
  "loop_index cfg [] consecutiveFailures = (consecutiveFailures, [])"
| "loop_index cfg (env # envs) consecutiveFailures =
     (case checkServerWithRetry_index cfg env consecutiveFailures of
        (Inl err, cf, out) \<Rightarrow> (cf, out)
      | (Inr _, cf, out) \<Rightarrow>
          (let (cf', out') = loop_index cfg envs cf
           in (cf', out @ Sleep (map_option (\<lambda>n. real_of_int (n * 1000)) (parseInt (CHECK_INTERVAL cfg))) # out')))"

section \<open>Observations on the effects of a cycle\<close>

text \<open>
  The failed attempts that a cycle printed, with the error of each, and their numbers.
\<close>

definition logged_errors :: "event list \<Rightarrow> (int \<times> js_error) list" where
  "logged_errors tr = concat (map (\<lambda>x. case x of LogAttempt n e \<Rightarrow> [(n, e)] | _ \<Rightarrow> []) tr)"

definition logged_attempts :: "event list \<Rightarrow> int list" where
  "logged_attempts tr = map fst (logged_errors tr)"

text \<open>
  The waits of a cycle: all of them, and those that directly follow the line of a failed
  attempt, with the number of that attempt.
\<close>

definition sleeps :: "event list \<Rightarrow> real option list" where
  "sleeps tr = concat (map (\<lambda>x. case x of Sleep d \<Rightarrow> [d] | _ \<Rightarrow> []) tr)"

fun jitter_waits :: "event list \<Rightarrow> (int \<times> real option) list" where
  "jitter_waits (LogAttempt n e # Sleep d # tr) = (n, d) # jitter_waits tr"
| "jitter_waits (x # tr) = jitter_waits tr"
| "jitter_waits [] = []"

text \<open>The number of calls of \<^verbatim>\<open>axios.post\<close>.\<close>

definition posts :: "event list \<Rightarrow> nat" where
  "posts tr = length (filter (\<lambda>x. x = HttpPost) tr)"

text \<open>The two lines that end a failed cycle.\<close>

fun is_classification :: "event \<Rightarrow> bool" where
  "is_classification (LogDown n) = True"
| "is_classification (LogWarn n) = True"
| "is_classification x = False"

text \<open>The effects of a liveness exchange, and those of a whole \<^verbatim>\<open>try\<close> block.\<close>

fun probe_event :: "event \<Rightarrow> bool" where
  "probe_event RconConnect = True"
| "probe_event (RconSend c) = True"
| "probe_event RconEnd = True"
| "probe_event WsConnect = True"
| "probe_event (WsSend m) = True"
| "probe_event (LogUpClassic r) = True"
| "probe_event (LogUpWeb r) = True"
| "probe_event x = False"

fun attempt_effect :: "event \<Rightarrow> bool" where
  "attempt_effect HttpPost = True"
| "attempt_effect LogHeartbeat = True"
| "attempt_effect x = probe_event x"

text \<open>
  An attempt succeeds when its \<^verbatim>\<open>try\<close> block runs to the \<^verbatim>\<open>return true\<close>; its
  liveness exchange succeeds when the check function returns, whatever happens to the
  heartbeat afterwards. Neither depends on the counter.
\<close>

type_synonym try_body = "attempt_env \<Rightarrow> int \<Rightarrow> (js_error + bool) \<times> int \<times> event list"

definition completes :: "try_body \<Rightarrow> attempt_env \<Rightarrow> bool" where
  "completes body e = (\<not> isl (fst (body e 0)))"

definition resets :: "try_body \<Rightarrow> attempt_env \<Rightarrow> bool" where
  "resets body e = (fst (snd (body e 1)) = 0)"

definition attempt_succeeds :: "config \<Rightarrow> attempt_env \<Rightarrow> bool" where
  "attempt_succeeds cfg e = completes (try_block cfg (toLowerCase (RCON_TRANSPORT cfg))) e"

definition exchange_succeeds :: "config \<Rightarrow> attempt_env \<Rightarrow> bool" where
  "exchange_succeeds cfg e = (\<not> isl (fst (exchange cfg (toLowerCase (RCON_TRANSPORT cfg)) e)))"

definition attempt_succeeds_index :: "config \<Rightarrow> attempt_env \<Rightarrow> bool" where
  "attempt_succeeds_index cfg e = completes (try_block_index cfg) e"

definition exchange_succeeds_index :: "attempt_env \<Rightarrow> bool" where
  "exchange_succeeds_index e =
     (connect_result (classic e) = None \<and> \<not> isl (send_result (classic e))
      \<and> end_result (classic e) 0 = None)"

section \<open>The loop without recursion\<close>

text \<open>
  Both \<^verbatim>\<open>for\<close> loops run the attempts \<open>a, a + 1, \<dots>\<close> up to the configured number and
  stop after the first one that succeeds. \<open>executed\<close> is the list of the attempts that
  run, \<open>segment\<close> the effects of one of them, and \<open>closed_form\<close> the result of the loop
  written with them; the loops are proved equal to it below.
\<close>

definition attempts_from :: "config \<Rightarrow> int \<Rightarrow> int list" where
  "attempts_from cfg a = (case parseInt (ATTEMPTS_PER_CYCLE cfg) of None \<Rightarrow> [] | Some k \<Rightarrow> [a..k])"

fun executed :: "(int \<Rightarrow> bool) \<Rightarrow> int list \<Rightarrow> int list" where
  "executed ok [] = []"
| "executed ok (i # rest) = (if ok i then [i] else i # executed ok rest)"

definition segment :: "try_body \<Rightarrow> config \<Rightarrow> (int \<Rightarrow> attempt_env) \<Rightarrow> int \<Rightarrow> event list" where
  "segment body cfg env i =
     snd (snd (body (env i) 0)) @
     (case fst (body (env i) 0) of
        Inl err \<Rightarrow> catch_block cfg (env i) i err
      | Inr b \<Rightarrow> [])"

definition closed_form :: "try_body \<Rightarrow> config \<Rightarrow> (int \<Rightarrow> attempt_env) \<Rightarrow> int \<Rightarrow> int \<Rightarrow> bool \<times> int \<times> event list" where
  "closed_form body cfg env a cf =
     (let ex = executed (\<lambda>i. completes body (env i)) (attempts_from cfg a)
      in (list_ex (\<lambda>i. completes body (env i)) ex,
          (if list_ex (\<lambda>i. resets body (env i)) ex then 0 else cf),
          concat (map (segment body cfg env) ex)))"

definition cycle_form :: "try_body \<Rightarrow> config \<Rightarrow> (int \<Rightarrow> attempt_env) \<Rightarrow> int \<Rightarrow> (js_error + bool) \<times> int \<times> event list" where
  "cycle_form body cfg env cf =
     (let (returned, c, out) = closed_form body cfg env 1 cf
      in if returned then (Inr True, c, out)
         else (Inr False, c + 1, out @ [classify cfg (c + 1)]))"

text \<open>
  What the properties below need of a \<^verbatim>\<open>try\<close> block: its completion and its effects do
  not depend on the counter, which it either resets or leaves alone; it resets the counter
  whenever it completes; and it neither prints a failed attempt nor waits.
\<close>

definition regular :: "try_body \<Rightarrow> bool" where
  "regular body =
     (\<forall>e cf. body e cf = (fst (body e 0), (if resets body e then 0 else cf), snd (snd (body e 0)))
        \<and> (completes body e \<longrightarrow> resets body e)
        \<and> (\<forall>x \<in> set (snd (snd (body e cf))). attempt_effect x))"

definition quiet_body :: "try_body \<Rightarrow> bool" where
  "quiet_body body = (\<forall>e c. \<forall>x \<in> set (snd (snd (body e c))). attempt_effect x)"

definition no_sleep_head :: "event list \<Rightarrow> bool" where
  "no_sleep_head tr = (case tr of Sleep d # rest \<Rightarrow> False | _ \<Rightarrow> True)"

text \<open>What one attempt adds to the printed failures and to the waits.\<close>

definition failure_of :: "try_body \<Rightarrow> (int \<Rightarrow> attempt_env) \<Rightarrow> int \<Rightarrow> (int \<times> js_error) list" where
  "failure_of body env i = (case fst (body (env i) 0) of Inl err \<Rightarrow> [(i, err)] | Inr b \<Rightarrow> [])"

definition wait_of :: "try_body \<Rightarrow> config \<Rightarrow> (int \<Rightarrow> attempt_env) \<Rightarrow> int \<Rightarrow> (int \<times> real option) list" where
  "wait_of body cfg env i =
     (if \<not> completes body (env i) \<and> num_lt i (parseInt (ATTEMPTS_PER_CYCLE cfg))
      then [(i, jitter cfg (env i))] else [])"

section \<open>Vocabulary of the properties\<close>

text \<open>
  The result of a cycle agrees with a threshold: a failed cycle ends with one of the two
  closing lines, the ``down'' line exactly when the new counter has reached the
  threshold and the ``warn'' line exactly when it is positive and below it; a successful
  cycle leaves the counter at 0 and prints neither line.
\<close>

definition classified_by :: "int \<Rightarrow> (js_error + bool) \<times> int \<times> event list \<Rightarrow> bool" where
  "classified_by threshold result =
     (case result of (returned, c, tr) \<Rightarrow>
        (returned = Inr False \<longrightarrow>
           tr \<noteq> [] \<and> (last tr = LogDown c \<or> last tr = LogWarn c)
           \<and> (last tr = LogDown c \<longleftrightarrow> threshold \<le> c)
           \<and> (last tr = LogWarn c \<longleftrightarrow> 0 < c \<and> c < threshold))
      \<and> (returned = Inr True \<longrightarrow> c = 0 \<and> (\<forall>x \<in> set tr. \<not> is_classification x)))"

text \<open>
  The first attempt that succeeds ends the cycle: the cycle returns \<^verbatim>\<open>true\<close>, the failed
  attempts it printed are exactly the earlier ones, and nothing of the cycle depends on the
  world of a later attempt. The cycle returns \<^verbatim>\<open>false\<close> exactly when none of the configured
  attempts succeeds, and then it has printed every one of them as failed.
\<close>

definition first_success_ends_cycle ::
  "config \<Rightarrow> (attempt_env \<Rightarrow> bool) \<Rightarrow>
   ((int \<Rightarrow> attempt_env) \<Rightarrow> (js_error + bool) \<times> int \<times> event list) \<Rightarrow> (int \<Rightarrow> attempt_env) \<Rightarrow> bool" where
  "first_success_ends_cycle cfg succeeds cycle env =
     ((\<forall>i. 1 \<le> i \<and> num_le i (parseInt (ATTEMPTS_PER_CYCLE cfg)) \<and> succeeds (env i)
            \<and> (\<forall>j. 1 \<le> j \<and> j < i \<longrightarrow> \<not> succeeds (env j)) \<longrightarrow>
          fst (cycle env) = Inr True
        \<and> logged_attempts (snd (snd (cycle env))) = [1..i - 1]
        \<and> (\<forall>env'. (\<forall>j. 1 \<le> j \<and> j \<le> i \<longrightarrow> env' j = env j) \<longrightarrow> cycle env' = cycle env))
      \<and> (fst (cycle env) = Inr False \<longleftrightarrow>
           (\<forall>i. 1 \<le> i \<and> num_le i (parseInt (ATTEMPTS_PER_CYCLE cfg)) \<longrightarrow> \<not> succeeds (env i)))
      \<and> (fst (cycle env) = Inr False \<longrightarrow>
           logged_attempts (snd (snd (cycle env))) = attempts_from cfg 1))"

text \<open>
  The jitter waits of a cycle whose attempts are in the worlds \<open>env 1\<close>, \<open>env 2\<close>, ... and
  leave the trace \<open>tr\<close>, \<open>succeeds\<close> telling the attempts that succeed. Every attempt that
  is reached (no attempt up to it succeeds), fails and is not the last configured one is
  followed by a wait, directly after the line of its failure, of that attempt's own random
  sample times the configured maximum. The cycle has these waits and no other: the failed
  attempts are the configured attempts before the first that succeeds, the waits are those
  of the failed attempts numbered below \<^verbatim>\<open>ATTEMPTS_PER_CYCLE\<close>, in their order, every
  \<open>Sleep\<close> of the trace is one of them, and none follows the last configured attempt.
\<close>

definition jitter_between_attempts ::
  "config \<Rightarrow> (attempt_env \<Rightarrow> bool) \<Rightarrow> (int \<Rightarrow> attempt_env) \<Rightarrow> event list \<Rightarrow> bool" where
  "jitter_between_attempts cfg succeeds env tr =
     ((\<forall>i. 1 \<le> i \<and> num_lt i (parseInt (ATTEMPTS_PER_CYCLE cfg))
            \<and> (\<forall>j. 1 \<le> j \<and> j \<le> i \<longrightarrow> \<not> succeeds (env j)) \<longrightarrow>
          (i, jitter cfg (env i)) \<in> set (jitter_waits tr))
      \<and> logged_attempts tr = takeWhile (\<lambda>i. \<not> succeeds (env i)) (attempts_from cfg 1)
      \<and> jitter_waits tr =
          map (\<lambda>i. (i, jitter cfg (env i)))
            (filter (\<lambda>i. num_lt i (parseInt (ATTEMPTS_PER_CYCLE cfg)))
              (takeWhile (\<lambda>i. \<not> succeeds (env i)) (attempts_from cfg 1)))
      \<and> sleeps tr = map snd (jitter_waits tr)
      \<and> (\<forall>k w. parseInt (ATTEMPTS_PER_CYCLE cfg) = Some k \<longrightarrow> (k, w) \<notin> set (jitter_waits tr)))"

text \<open>
  The length of the waits of a trace. With a positive maximum and samples of
  \<^verbatim>\<open>Math.random()\<close> in \<open>[0, 1)\<close> every wait is a number of \<open>[0, jitterMax)\<close>; with a
  maximum of 0 every wait is 0, which is in no interval \<open>[0, 0)\<close>.
\<close>

definition jitter_range :: "config \<Rightarrow> (int \<Rightarrow> attempt_env) \<Rightarrow> event list \<Rightarrow> bool" where
  "jitter_range cfg env tr =
     ((\<forall>jitterMax. parseInt (JITTER_MS cfg) = Some jitterMax \<and> 0 < jitterMax
            \<and> (\<forall>i. 0 \<le> random (env i) \<and> random (env i) < 1) \<longrightarrow>
          (\<forall>w \<in> set (sleeps tr). \<exists>d. w = Some d \<and> 0 \<le> d \<and> d < real_of_int jitterMax))
      \<and> (parseInt (JITTER_MS cfg) = Some 0 \<longrightarrow> (\<forall>w \<in> set (sleeps tr). w = Some 0)))"

text \<open>
  The counter after a cycle that started with it at \<open>cf\<close>: never negative; 0 after a
  cycle that returns \<^verbatim>\<open>true\<close>; after a cycle that returns \<^verbatim>\<open>false\<close>, 1 when the liveness
  exchange of some attempt succeeded (the counter was reset before the heartbeat failed)
  and \<open>cf + 1\<close> otherwise.
\<close>

definition counter_rule ::
  "config \<Rightarrow> (attempt_env \<Rightarrow> bool) \<Rightarrow> (int \<Rightarrow> attempt_env) \<Rightarrow> int \<Rightarrow>
   (js_error + bool) \<times> int \<times> event list \<Rightarrow> bool" where
  "counter_rule cfg exchanged env cf result =
     (case result of (returned, c, tr) \<Rightarrow>
        0 \<le> c
      \<and> (returned = Inr True \<longrightarrow> c = 0)
      \<and> (returned = Inr False \<longrightarrow>
           c = (if list_ex (\<lambda>i. exchanged (env i)) (attempts_from cfg 1) then 1 else cf + 1)))"

text \<open>A \<^verbatim>\<open>try\<close> block that posts the heartbeat exactly when it has reset the counter.\<close>

definition posts_once :: "try_body \<Rightarrow> bool" where
  "posts_once body = (\<forall>e. posts (snd (snd (body e 0))) = (if resets body e then 1 else 0))"

text \<open>
  WebRCON events that leave an attempt as it is: before the auth signal, the opening of the
  socket (which only sends the auth frame) and every well-formed frame whose
  \<^verbatim>\<open>Identifier\<close> is not -1; after the auth signal, when the command was sent with the id
  \<open>t\<close>, the opening, the closing of the socket and every well-formed frame whose
  \<^verbatim>\<open>Identifier\<close> is not \<open>t\<close>.
\<close>

fun keeps_pending :: "ws_event \<Rightarrow> bool" where
  "keeps_pending EvOpen = True"
| "keeps_pending (EvMessage (Msg ident m)) = (ident \<noteq> JNum (- 1))"
| "keeps_pending ev = False"

fun passes_after_auth :: "real \<Rightarrow> ws_event \<Rightarrow> bool" where
  "passes_after_auth t EvOpen = True"
| "passes_after_auth t EvClose = True"
| "passes_after_auth t (EvMessage (Msg ident m)) = (ident \<noteq> JNum t)"
| "passes_after_auth t ev = False"

text \<open>The response previews that an attempt printed, and the command frames it sent.\<close>

definition response_previews :: "event list \<Rightarrow> string list" where
  "response_previews tr = concat (map (\<lambda>x. case x of LogUpWeb p \<Rightarrow> [p] | _ \<Rightarrow> []) tr)"

definition commands_sent :: "event list \<Rightarrow> rcon_message list" where
  "commands_sent tr =
     concat (map (\<lambda>x. case x of
                WsSend (RconMessage i m n ty) \<Rightarrow> if ty = ''command'' then [RconMessage i m n ty] else []
              | _ \<Rightarrow> []) tr)"

section \<open>Sample worlds\<close>

definition cfg_web :: config where
  "cfg_web = default_config ''secret''"

definition cfg_classic :: config where
  "cfg_classic = (default_config ''secret'')\<lparr>RCON_TRANSPORT := ''classic''\<rparr>"

definition cfg_udp :: config where
  "cfg_udp = (default_config ''secret'')\<lparr>RCON_TRANSPORT := ''udp''\<rparr>"

definition econnrefused :: js_error where
  "econnrefused = JsError ''connect ECONNREFUSED'' (Some ''ECONNREFUSED'') ''Error''"

definition bad_response :: js_error where
  "bad_response = JsError ''Request failed with status code 500'' (Some ''ERR_BAD_RESPONSE'') ''AxiosError''"

definition classic_up :: classic_env where
  "classic_up = \<lparr>connect_result = None, send_result = Inr ''hostname: X'', end_result = (\<lambda>n. None)\<rparr>"

definition classic_down :: classic_env where
  "classic_down = \<lparr>connect_result = Some econnrefused, send_result = Inl econnrefused,
                    end_result = (\<lambda>n. None)\<rparr>"

definition web_up :: ws_env where
  "web_up = \<lparr>constructor_error = None,
              events = [EvOpen, EvMessage (Msg (JNum (- 1)) JUndefined),
                        EvMessage (Msg (JNum 1700000000000) (JStr ''hostname: X''))],
              now = 1700000000000\<rparr>"

definition web_down :: ws_env where
  "web_down = \<lparr>constructor_error = None, events = [], now = 1700000000000\<rparr>"

definition attempt_up :: attempt_env where
  "attempt_up = \<lparr>classic = classic_up, web = web_up, post_result = None, random = 1 / 2\<rparr>"

definition attempt_down :: attempt_env where
  "attempt_down = \<lparr>classic = classic_down, web = web_down, post_result = None, random = 1 / 2\<rparr>"

definition attempt_unreported :: attempt_env where
  "attempt_unreported =
     \<lparr>classic = classic_up, web = web_up, post_result = Some bad_response, random = 1 / 2\<rparr>"

definition cfg_no_jitter :: config where
  "cfg_no_jitter = (default_config ''secret'')\<lparr>JITTER_MS := ''0''\<rparr>"

text \<open>
  A server that accepts the connection and never answers the opening handshake: the timer
  of line 67 expires first, then the handshake timeout of the socket, set to the same
  length on line 74, makes the socket emit \<^verbatim>\<open>'error'\<close> and \<^verbatim>\<open>'close'\<close>.
\<close>

definition handshake_timeout :: js_error where
  "handshake_timeout = new_Error ''Opening handshake has timed out''"

definition web_hung :: ws_env where
  "web_hung = \<lparr>constructor_error = None,
                events = [EvTimeout, EvError handshake_timeout, EvClose],
                now = 1700000000000\<rparr>"

definition attempt_hung :: attempt_env where
  "attempt_hung = \<lparr>classic = classic_down, web = web_hung, post_result = None, random = 1 / 2\<rparr>"

definition web_closed_early :: ws_env where
  "web_closed_early =
     \<lparr>constructor_error = None,
      events = [EvOpen, EvMessage (Msg (JNum 0) (JStr ''chat'')), EvClose],
      now = 1700000000000\<rparr>"

definition web_early_answer :: ws_env where
  "web_early_answer =
     \<lparr>constructor_error = None,
      events = [EvOpen, EvMessage (Msg (JNum 1700000000000) (JStr ''hostname: X''))],
      now = 1700000000000\<rparr>"

definition web_long :: ws_env where
  "web_long =
     \<lparr>constructor_error = None,
      events = [EvOpen, EvMessage (Msg (JNum (- 1)) JUndefined),
                EvMessage (Msg (JNum 0) (JStr ''chat'')),
                EvMessage (Msg (JNum 1700000000000) (JStr (replicate 101 (CHR ''x''))))],
      now = 1700000000000\<rparr>"

section \<open>Properties of the loop\<close>

lemma try_block_shape:
  "try_block cfg tr e cf =
     (fst (try_block cfg tr e 0),
      (if resets (try_block cfg tr) e then 0 else cf),
      snd (snd (try_block cfg tr e 0)))"
  by (simp add: try_block_def resets_def split: prod.splits sum.splits option.splits)

lemma try_block_completes_resets:
  "completes (try_block cfg tr) e \<Longrightarrow> resets (try_block cfg tr) e"
  by (simp add: try_block_def resets_def completes_def split: prod.splits sum.splits option.splits)

lemma attempts_from_Nil: "\<not> num_le a (parseInt (ATTEMPTS_PER_CYCLE cfg)) \<Longrightarrow> attempts_from cfg a = []"
  by (simp add: attempts_from_def num_le_def split: option.splits)

lemma attempts_from_Cons:
  "num_le a (parseInt (ATTEMPTS_PER_CYCLE cfg)) \<Longrightarrow> attempts_from cfg a = a # attempts_from cfg (a + 1)"
  by (auto simp: attempts_from_def num_le_def upto_rec1 split: option.splits)

lemma attempts_closed:
  "attempts cfg tr env a cf = closed_form (try_block cfg tr) cfg env a cf"
proof (induction cfg tr env a cf rule: attempts.induct)
  case (1 cfg tr env a cf)
  show ?case
  proof (cases "num_le a (parseInt (ATTEMPTS_PER_CYCLE cfg))")
    case False
    then show ?thesis
      by (simp add: attempts.simps [of cfg tr env a cf] closed_form_def attempts_from_Nil)
  next
    case True
    note le = this
    obtain r c out where tb: "try_block cfg tr (env a) cf = (r, c, out)"
      by (cases "try_block cfg tr (env a) cf")
    have shape: "r = fst (try_block cfg tr (env a) 0)"
      "c = (if resets (try_block cfg tr) (env a) then 0 else cf)"
      "out = snd (snd (try_block cfg tr (env a) 0))"
      using tb try_block_shape [of cfg tr "env a" cf] by simp_all
    show ?thesis
    proof (cases r)
      case (Inr b)
      then have comp: "completes (try_block cfg tr) (env a)"
        using shape(1) by (simp add: completes_def)
      then have "resets (try_block cfg tr) (env a)"
        by (rule try_block_completes_resets)
      with Inr comp le tb shape show ?thesis
        by (simp add: attempts.simps [of cfg tr env a cf] closed_form_def attempts_from_Cons
            segment_def)
    next
      case (Inl err)
      then have ncomp: "\<not> completes (try_block cfg tr) (env a)"
        using shape(1) by (simp add: completes_def)
      have IH: "attempts cfg tr env (a + 1) c = closed_form (try_block cfg tr) cfg env (a + 1) c"
        using "1.IH" [OF le] tb Inl by simp
      from Inl ncomp le tb shape IH show ?thesis
        by (simp add: attempts.simps [of cfg tr env a cf] closed_form_def attempts_from_Cons
            segment_def Let_def)
    qed
  qed
qed

lemma logged_errors_append [simp]: "logged_errors (xs @ ys) = logged_errors xs @ logged_errors ys"
  by (simp add: logged_errors_def)

lemma sleeps_append [simp]: "sleeps (xs @ ys) = sleeps xs @ sleeps ys"
  by (simp add: sleeps_def)

lemma posts_append [simp]: "posts (xs @ ys) = posts xs + posts ys"
  by (simp add: posts_def)

lemma logged_errors_Nil [simp]: "logged_errors [] = []"
  by (simp add: logged_errors_def)

lemma logged_errors_Cons:
  "logged_errors (x # tr) = (case x of LogAttempt n e \<Rightarrow> [(n, e)] | _ \<Rightarrow> []) @ logged_errors tr"
  by (simp add: logged_errors_def)

lemma sleeps_Nil [simp]: "sleeps [] = []"
  by (simp add: sleeps_def)

lemma sleeps_Cons:
  "sleeps (x # tr) = (case x of Sleep d \<Rightarrow> [d] | _ \<Rightarrow> []) @ sleeps tr"
  by (simp add: sleeps_def)

lemma logged_errors_effects: "\<forall>x \<in> set out. attempt_effect x \<Longrightarrow> logged_errors out = []"
proof (induction out)
  case Nil
  show ?case by (simp add: logged_errors_def)
next
  case (Cons x out)
  then show ?case by (cases x) (simp_all add: logged_errors_def)
qed

lemma sleeps_effects: "\<forall>x \<in> set out. attempt_effect x \<Longrightarrow> sleeps out = []"
proof (induction out)
  case Nil
  show ?case by (simp add: sleeps_def)
next
  case (Cons x out)
  then show ?case by (cases x) (simp_all add: sleeps_def)
qed

lemma jitter_waits_effects:
  "\<forall>x \<in> set out. attempt_effect x \<Longrightarrow> jitter_waits (out @ tr) = jitter_waits tr"
proof (induction out)
  case Nil
  show ?case by simp
next
  case (Cons x out)
  then show ?case by (cases x) simp_all
qed

lemma jitter_waits_no_sleep:
  "no_sleep_head tr \<Longrightarrow> jitter_waits (LogAttempt n e # tr) = jitter_waits tr"
proof (cases tr)
  case Nil
  then show ?thesis by simp
next
  case (Cons x rest)
  assume "no_sleep_head tr"
  with Cons show ?thesis by (cases x) (simp_all add: no_sleep_head_def)
qed

lemma no_sleep_head_effects:
  "\<forall>x \<in> set out. attempt_effect x \<Longrightarrow> no_sleep_head tr \<Longrightarrow> no_sleep_head (out @ tr)"
proof (cases out)
  case Nil
  assume "no_sleep_head tr"
  with Nil show ?thesis by simp
next
  case (Cons x rest)
  assume "\<forall>x \<in> set out. attempt_effect x"
  with Cons show ?thesis by (cases x) (simp_all add: no_sleep_head_def)
qed

lemma catch_block_eq:
  "catch_block cfg e i err =
     LogAttempt i err # (if num_lt i (parseInt (ATTEMPTS_PER_CYCLE cfg)) then [Sleep (jitter cfg e)] else [])"
  by (simp add: catch_block_def)

lemma no_sleep_head_segment:
  assumes "quiet_body body" and "no_sleep_head tr"
  shows "no_sleep_head (segment body cfg env i @ tr)"
proof -
  have q: "\<forall>x \<in> set (snd (snd (body (env i) 0))). attempt_effect x"
    using assms(1) by (simp add: quiet_body_def)
  show ?thesis
  proof (cases "fst (body (env i) 0)")
    case (Inl err)
    have "no_sleep_head (catch_block cfg (env i) i err @ tr)"
      by (simp add: catch_block_eq no_sleep_head_def)
    with q Inl show ?thesis
      by (simp add: segment_def no_sleep_head_effects)
  next
    case (Inr b)
    with q assms(2) show ?thesis
      by (simp add: segment_def no_sleep_head_effects)
  qed
qed

lemma no_sleep_head_segments:
  assumes "quiet_body body" and "no_sleep_head tr"
  shows "no_sleep_head (concat (map (segment body cfg env) ex) @ tr)"
  using assms by (induction ex) (simp_all add: no_sleep_head_segment)

lemma logged_errors_segment:
  assumes "quiet_body body"
  shows "logged_errors (segment body cfg env i) = failure_of body env i"
proof -
  have "\<forall>x \<in> set (snd (snd (body (env i) 0))). attempt_effect x"
    using assms by (simp add: quiet_body_def)
  then have "logged_errors (snd (snd (body (env i) 0))) = []"
    by (rule logged_errors_effects)
  then show ?thesis
    by (simp add: segment_def failure_of_def catch_block_eq logged_errors_Cons split: sum.splits)
qed

lemma sleeps_segment:
  assumes "quiet_body body"
  shows "sleeps (segment body cfg env i) = map snd (wait_of body cfg env i)"
proof -
  have "\<forall>x \<in> set (snd (snd (body (env i) 0))). attempt_effect x"
    using assms by (simp add: quiet_body_def)
  then have "sleeps (snd (snd (body (env i) 0))) = []"
    by (rule sleeps_effects)
  then show ?thesis
    by (simp add: segment_def wait_of_def catch_block_eq sleeps_Cons completes_def
        split: sum.splits)
qed

lemma jitter_waits_segment:
  assumes "quiet_body body" and "no_sleep_head tr"
  shows "jitter_waits (segment body cfg env i @ tr) = wait_of body cfg env i @ jitter_waits tr"
proof -
  have q: "\<forall>x \<in> set (snd (snd (body (env i) 0))). attempt_effect x"
    using assms(1) by (simp add: quiet_body_def)
  show ?thesis
  proof (cases "fst (body (env i) 0)")
    case (Inl err)
    with q assms(2) show ?thesis
      by (simp add: segment_def wait_of_def completes_def jitter_waits_effects catch_block_eq
          jitter_waits_no_sleep)
  next
    case (Inr b)
    with q show ?thesis
      by (simp add: segment_def wait_of_def completes_def jitter_waits_effects)
  qed
qed

lemma logged_errors_segments:
  "quiet_body body \<Longrightarrow>
   logged_errors (concat (map (segment body cfg env) ex)) = concat (map (failure_of body env) ex)"
  by (induction ex) (simp_all add: logged_errors_segment)

lemma sleeps_segments:
  "quiet_body body \<Longrightarrow>
   sleeps (concat (map (segment body cfg env) ex)) = map snd (concat (map (wait_of body cfg env) ex))"
  by (induction ex) (simp_all add: sleeps_segment)

lemma jitter_waits_segments:
  assumes "quiet_body body" and "no_sleep_head tr"
  shows "jitter_waits (concat (map (segment body cfg env) ex) @ tr) =
         concat (map (wait_of body cfg env) ex) @ jitter_waits tr"
proof (induction ex)
  case Nil
  show ?case by simp
next
  case (Cons i ex)
  have "no_sleep_head (concat (map (segment body cfg env) ex) @ tr)"
    using assms by (rule no_sleep_head_segments)
  with assms(1) Cons show ?case
    by (simp add: jitter_waits_segment)
qed

lemma checkServerWithRetry_closed:
  "checkServerWithRetry cfg env cf =
     cycle_form (try_block cfg (toLowerCase (RCON_TRANSPORT cfg))) cfg env cf"
  by (simp add: checkServerWithRetry_def cycle_form_def attempts_closed)

lemma set_attempts_from:
  "i \<in> set (attempts_from cfg a) \<longleftrightarrow> a \<le> i \<and> num_le i (parseInt (ATTEMPTS_PER_CYCLE cfg))"
  by (auto simp: attempts_from_def num_le_def split: option.splits)

lemma list_ex_executed: "list_ex ok (executed ok xs) = list_ex ok xs"
  by (induction xs) simp_all

lemma executed_takeWhile:
  "executed ok xs = takeWhile (\<lambda>i. \<not> ok i) xs @ take 1 (dropWhile (\<lambda>i. \<not> ok i) xs)"
  by (induction xs) simp_all

lemma failure_of_completes: "completes body (env i) \<Longrightarrow> failure_of body env i = []"
  by (auto simp: failure_of_def completes_def split: sum.splits)

lemma wait_of_completes: "completes body (env i) \<Longrightarrow> wait_of body cfg env i = []"
  by (simp add: wait_of_def)

lemma failures_executed:
  "concat (map (failure_of body env) (executed (\<lambda>i. completes body (env i)) xs)) =
   concat (map (failure_of body env) (takeWhile (\<lambda>i. \<not> completes body (env i)) xs))"
  by (induction xs) (simp_all add: failure_of_completes)

lemma waits_executed:
  "concat (map (wait_of body cfg env) (executed (\<lambda>i. completes body (env i)) xs)) =
   concat (map (wait_of body cfg env) (takeWhile (\<lambda>i. \<not> completes body (env i)) xs))"
  by (induction xs) (simp_all add: wait_of_completes)

lemma failures_fst:
  "\<forall>i \<in> set xs. \<not> completes body (env i) \<Longrightarrow> map fst (concat (map (failure_of body env) xs)) = xs"
  by (induction xs) (auto simp: failure_of_def completes_def split: sum.splits)

lemma waits_filter:
  "\<forall>i \<in> set xs. \<not> completes body (env i) \<Longrightarrow>
   concat (map (wait_of body cfg env) xs) =
   map (\<lambda>i. (i, jitter cfg (env i))) (filter (\<lambda>i. num_lt i (parseInt (ATTEMPTS_PER_CYCLE cfg))) xs)"
  by (induction xs) (simp_all add: wait_of_def)

lemma upto_first_split:
  assumes "a \<le> i" "i \<le> k"
  shows "[a..k] = [a..i - 1] @ i # [i + 1..k]"
proof -
  have "[a..k] = [a..i - 1] @ [i..k]"
    using assms by (rule upto_split1)
  also have "[i..k] = i # [i + 1..k]"
    using assms(2) by (rule upto_rec1)
  finally show ?thesis .
qed

lemma takeWhile_upto_first:
  assumes "a \<le> i" "i \<le> k" "\<not> P i" "\<forall>j. a \<le> j \<and> j < i \<longrightarrow> P j"
  shows "takeWhile P [a..k] = [a..i - 1]"
proof -
  have "takeWhile P ([a..i - 1] @ i # [i + 1..k]) = [a..i - 1] @ takeWhile P (i # [i + 1..k])"
    by (rule takeWhile_append2) (use assms(4) in auto)
  then show ?thesis
    using assms(3) upto_first_split [OF assms(1,2)] by simp
qed

lemma dropWhile_upto_first:
  assumes "a \<le> i" "i \<le> k" "\<not> P i" "\<forall>j. a \<le> j \<and> j < i \<longrightarrow> P j"
  shows "dropWhile P [a..k] = i # [i + 1..k]"
proof -
  have "dropWhile P ([a..i - 1] @ i # [i + 1..k]) = dropWhile P (i # [i + 1..k])"
    by (rule dropWhile_append2) (use assms(4) in auto)
  then show ?thesis
    using assms(3) upto_first_split [OF assms(1,2)] by simp
qed

lemma executed_upto_first:
  assumes "a \<le> i" "i \<le> k" "ok i" "\<forall>j. a \<le> j \<and> j < i \<longrightarrow> \<not> ok j"
  shows "executed ok [a..k] = [a..i]"
proof -
  have "takeWhile (\<lambda>i. \<not> ok i) [a..k] = [a..i - 1]"
    using assms by (intro takeWhile_upto_first) auto
  moreover have "dropWhile (\<lambda>i. \<not> ok i) [a..k] = i # [i + 1..k]"
    using assms by (intro dropWhile_upto_first) auto
  moreover have "[a..i - 1] @ [i] = [a..i]"
    using assms(1) upto_rec2 [of a i] by simp
  ultimately show ?thesis
    by (simp add: executed_takeWhile)
qed

lemma executed_cong:
  "\<forall>j \<in> set (executed ok xs). ok' j = ok j \<Longrightarrow> executed ok' xs = executed ok xs"
  by (induction xs) (auto split: if_splits)

lemma regular_quiet: "regular body \<Longrightarrow> quiet_body body"
  unfolding regular_def quiet_body_def by blast

lemma regular_completes_resets: "regular body \<Longrightarrow> completes body e \<Longrightarrow> resets body e"
  unfolding regular_def by blast

lemma regular_shape:
  "regular body \<Longrightarrow>
   body e cf = (fst (body e 0), (if resets body e then 0 else cf), snd (snd (body e 0)))"
  unfolding regular_def by blast

lemma classic_probe: "\<forall>x \<in> set (snd (checkServerClassicRCON cfg env)). probe_event x"
  by (simp add: checkServerClassicRCON_def split: option.splits sum.splits)

lemma on_event_probe: "\<forall>x \<in> set (snd (on_event cfg t st ev)). probe_event x"
  by (simp add: on_event_def on_message_def split: ws_event.splits frame.splits sum.splits)

lemma ws_run_probe: "\<forall>x \<in> set (snd (ws_run cfg t st evs)). probe_event x"
proof (induction evs arbitrary: st)
  case Nil
  show ?case by (simp split: option.splits)
next
  case (Cons ev evs)
  show ?case
  proof (cases "outcome st")
    case (Some r)
    then show ?thesis by simp
  next
    case None
    obtain st' out where step: "on_event cfg t st ev = (st', out)"
      by (cases "on_event cfg t st ev")
    have "\<forall>x \<in> set out. probe_event x"
      using on_event_probe [of cfg t st ev] step by simp
    with None step Cons [of st'] show ?thesis
      by (auto split: prod.splits)
  qed
qed

lemma web_probe: "\<forall>x \<in> set (snd (checkServerWebRCON cfg env)). probe_event x"
  using ws_run_probe [of cfg "now env" ws_initial "events env"]
  by (simp add: checkServerWebRCON_def split: option.splits prod.splits)

lemma exchange_probe: "\<forall>x \<in> set (snd (exchange cfg tr e)). probe_event x"
  by (simp add: exchange_def classic_probe web_probe)

lemma probe_effect: "probe_event x \<Longrightarrow> attempt_effect x"
  by (cases x) simp_all

lemma try_block_effects: "\<forall>x \<in> set (snd (snd (try_block cfg tr e cf))). attempt_effect x"
  using exchange_probe [of cfg tr e]
  by (auto simp: try_block_def probe_effect split: prod.splits sum.splits option.splits)

lemma try_block_regular: "regular (try_block cfg tr)"
  unfolding regular_def
  using try_block_shape try_block_completes_resets try_block_effects by blast

lemma try_block_index_regular: "regular (try_block_index cfg)"
  unfolding regular_def
  by (simp add: try_block_index_def resets_def completes_def split: option.splits sum.splits)

lemma attempts_index_closed:
  "attempts_index cfg env a cf = closed_form (try_block_index cfg) cfg env a cf"
proof (induction cfg env a cf rule: attempts_index.induct)
  case (1 cfg env a cf)
  show ?case
  proof (cases "num_le a (parseInt (ATTEMPTS_PER_CYCLE cfg))")
    case False
    then show ?thesis
      by (simp add: attempts_index.simps [of cfg env a cf] closed_form_def attempts_from_Nil)
  next
    case True
    note le = this
    obtain r c out where tb: "try_block_index cfg (env a) cf = (r, c, out)"
      by (cases "try_block_index cfg (env a) cf")
    have shape: "r = fst (try_block_index cfg (env a) 0)"
      "c = (if resets (try_block_index cfg) (env a) then 0 else cf)"
      "out = snd (snd (try_block_index cfg (env a) 0))"
      using tb regular_shape [OF try_block_index_regular, of cfg "env a" cf] by simp_all
    show ?thesis
    proof (cases r)
      case (Inr b)
      then have comp: "completes (try_block_index cfg) (env a)"
        using shape(1) by (simp add: completes_def)
      then have "resets (try_block_index cfg) (env a)"
        using try_block_index_regular by (rule regular_completes_resets [rotated])
      with Inr comp le tb shape show ?thesis
        by (simp add: attempts_index.simps [of cfg env a cf] closed_form_def attempts_from_Cons
            segment_def)
    next
      case (Inl err)
      then have ncomp: "\<not> completes (try_block_index cfg) (env a)"
        using shape(1) by (simp add: completes_def)
      have IH: "attempts_index cfg env (a + 1) c = closed_form (try_block_index cfg) cfg env (a + 1) c"
        using "1.IH" [OF le] tb Inl by simp
      from Inl ncomp le tb shape IH show ?thesis
        by (simp add: attempts_index.simps [of cfg env a cf] closed_form_def attempts_from_Cons
            segment_def Let_def)
    qed
  qed
qed

lemma checkServerWithRetry_index_closed:
  "checkServerWithRetry_index cfg env cf = cycle_form (try_block_index cfg) cfg env cf"
  by (simp add: checkServerWithRetry_index_def cycle_form_def attempts_index_closed)

lemma cycle_form_returns:
  "fst (cycle_form body cfg env cf) =
     Inr (list_ex (\<lambda>i. completes body (env i)) (attempts_from cfg 1))"
  by (simp add: cycle_form_def closed_form_def list_ex_executed Let_def)

lemma cycle_form_trace:
  "snd (snd (cycle_form body cfg env cf)) =
     concat (map (segment body cfg env)
       (executed (\<lambda>i. completes body (env i)) (attempts_from cfg 1))) @
     (if list_ex (\<lambda>i. completes body (env i)) (attempts_from cfg 1) then []
      else [classify cfg (fst (snd (cycle_form body cfg env cf)))])"
  by (simp add: cycle_form_def closed_form_def list_ex_executed Let_def)

lemma classify_cases: "classify cfg c = LogDown c \<or> classify cfg c = LogWarn c"
  by (simp add: classify_def)

lemma logged_errors_classify [simp]: "logged_errors [classify cfg c] = []"
  using classify_cases [of cfg c] by (auto simp: logged_errors_Cons)

lemma sleeps_classify [simp]: "sleeps [classify cfg c] = []"
  using classify_cases [of cfg c] by (auto simp: sleeps_Cons)

lemma jitter_waits_classify [simp]: "jitter_waits [classify cfg c] = []"
  using classify_cases [of cfg c] by auto

lemma no_sleep_head_classify [simp]: "no_sleep_head [classify cfg c]"
  using classify_cases [of cfg c] by (auto simp: no_sleep_head_def)

lemma no_sleep_head_Nil [simp]: "no_sleep_head []"
  by (simp add: no_sleep_head_def)

lemma cycle_form_logged:
  assumes "regular body"
  shows "logged_errors (snd (snd (cycle_form body cfg env cf))) =
         concat (map (failure_of body env)
           (takeWhile (\<lambda>i. \<not> completes body (env i)) (attempts_from cfg 1)))"
  using regular_quiet [OF assms]
  by (simp add: cycle_form_trace logged_errors_segments failures_executed)

lemma cycle_form_logged_attempts:
  assumes "regular body"
  shows "logged_attempts (snd (snd (cycle_form body cfg env cf))) =
         takeWhile (\<lambda>i. \<not> completes body (env i)) (attempts_from cfg 1)"
proof -
  have "\<forall>i \<in> set (takeWhile (\<lambda>i. \<not> completes body (env i)) (attempts_from cfg 1)).
          \<not> completes body (env i)"
    by (auto dest: set_takeWhileD)
  then show ?thesis
    by (simp add: logged_attempts_def cycle_form_logged [OF assms] failures_fst)
qed

lemma cycle_form_waits:
  assumes "regular body"
  shows "jitter_waits (snd (snd (cycle_form body cfg env cf))) =
         map (\<lambda>i. (i, jitter cfg (env i)))
           (filter (\<lambda>i. num_lt i (parseInt (ATTEMPTS_PER_CYCLE cfg)))
             (logged_attempts (snd (snd (cycle_form body cfg env cf)))))"
proof -
  let ?fs = "takeWhile (\<lambda>i. \<not> completes body (env i)) (attempts_from cfg 1)"
  let ?ex = "executed (\<lambda>i. completes body (env i)) (attempts_from cfg 1)"
  let ?tail = "if list_ex (\<lambda>i. completes body (env i)) (attempts_from cfg 1) then []
      else [classify cfg (fst (snd (cycle_form body cfg env cf)))]"
  have fail: "\<forall>i \<in> set ?fs. \<not> completes body (env i)"
    by (auto dest: set_takeWhileD)
  have "no_sleep_head ?tail" and "jitter_waits ?tail = []"
    by simp_all
  then have "jitter_waits (concat (map (segment body cfg env) ?ex) @ ?tail) =
        concat (map (wait_of body cfg env) ?ex)"
    using jitter_waits_segments [OF regular_quiet [OF assms], of ?tail cfg env ?ex] by simp
  also have "\<dots> = concat (map (wait_of body cfg env) ?fs)"
    by (rule waits_executed)
  also have "\<dots> = map (\<lambda>i. (i, jitter cfg (env i)))
      (filter (\<lambda>i. num_lt i (parseInt (ATTEMPTS_PER_CYCLE cfg))) ?fs)"
    using fail by (rule waits_filter)
  finally have chain: "jitter_waits (concat (map (segment body cfg env) ?ex) @ ?tail) =
      map (\<lambda>i. (i, jitter cfg (env i)))
        (filter (\<lambda>i. num_lt i (parseInt (ATTEMPTS_PER_CYCLE cfg))) ?fs)" .
  have tr: "jitter_waits (snd (snd (cycle_form body cfg env cf))) =
      jitter_waits (concat (map (segment body cfg env) ?ex) @ ?tail)"
    using cycle_form_trace [of body cfg env cf] by simp
  show ?thesis
    unfolding tr chain cycle_form_logged_attempts [OF assms] ..
qed

lemma cycle_form_sleeps:
  assumes "regular body"
  shows "sleeps (snd (snd (cycle_form body cfg env cf))) =
         map snd (jitter_waits (snd (snd (cycle_form body cfg env cf))))"
proof -
  let ?fs = "takeWhile (\<lambda>i. \<not> completes body (env i)) (attempts_from cfg 1)"
  have fail: "\<forall>i \<in> set ?fs. \<not> completes body (env i)"
    by (auto dest: set_takeWhileD)
  have "sleeps (snd (snd (cycle_form body cfg env cf))) =
        map snd (concat (map (wait_of body cfg env) ?fs))"
    using regular_quiet [OF assms]
    by (simp add: cycle_form_trace sleeps_segments waits_executed)
  also have "\<dots> = map snd (map (\<lambda>i. (i, jitter cfg (env i)))
      (filter (\<lambda>i. num_lt i (parseInt (ATTEMPTS_PER_CYCLE cfg))) ?fs))"
    using fail by (simp add: waits_filter)
  finally show ?thesis
    by (simp add: cycle_form_waits [OF assms] cycle_form_logged_attempts [OF assms])
qed

lemma list_ex_resets_executed:
  assumes "regular body"
  shows "list_ex (\<lambda>i. resets body (env i)) (executed (\<lambda>i. completes body (env i)) xs) \<longleftrightarrow>
         list_ex (\<lambda>i. completes body (env i)) xs
         \<or> list_ex (\<lambda>i. resets body (env i)) xs"
  using regular_completes_resets [OF assms] by (induction xs) auto

lemma cycle_form_counter:
  assumes "regular body"
  shows "fst (snd (cycle_form body cfg env cf)) =
         (if list_ex (\<lambda>i. completes body (env i)) (attempts_from cfg 1) then 0
          else if list_ex (\<lambda>i. resets body (env i)) (attempts_from cfg 1) then 1
          else cf + 1)"
  by (simp add: cycle_form_def closed_form_def list_ex_executed list_ex_resets_executed [OF assms]
      Let_def)

lemma cycle_form_cong:
  assumes "\<forall>j \<in> set (executed (\<lambda>i. completes body (env i)) (attempts_from cfg 1)). env' j = env j"
  shows "cycle_form body cfg env' cf = cycle_form body cfg env cf"
proof -
  let ?xs = "attempts_from cfg 1"
  let ?ex = "executed (\<lambda>i. completes body (env i)) ?xs"
  have ex: "executed (\<lambda>i. completes body (env' i)) ?xs = ?ex"
    by (rule executed_cong) (use assms in simp)
  have "map (segment body cfg env') ?ex = map (segment body cfg env) ?ex"
    by (rule map_cong) (use assms in \<open>simp_all add: segment_def split: sum.splits\<close>)
  then have "concat (map (segment body cfg env') ?ex) = concat (map (segment body cfg env) ?ex)"
    by (rule arg_cong)
  moreover have "list_ex (\<lambda>i. completes body (env' i)) ?ex = list_ex (\<lambda>i. completes body (env i)) ?ex"
    using assms by (simp add: list_ex_iff)
  moreover have "list_ex (\<lambda>i. resets body (env' i)) ?ex = list_ex (\<lambda>i. resets body (env i)) ?ex"
    using assms by (simp add: list_ex_iff)
  ultimately show ?thesis
    by (simp add: cycle_form_def closed_form_def ex Let_def)
qed

lemma effect_not_classification: "attempt_effect x \<Longrightarrow> \<not> is_classification x"
  by (cases x) simp_all

lemma segment_no_classification:
  assumes "regular body"
  shows "\<forall>x \<in> set (segment body cfg env i). \<not> is_classification x"
proof -
  have "\<forall>x \<in> set (snd (snd (body (env i) 0))). attempt_effect x"
    using regular_quiet [OF assms] by (simp add: quiet_body_def)
  then show ?thesis
    by (auto simp: segment_def catch_block_eq effect_not_classification split: sum.splits)
qed

lemma cycle_form_success_trace:
  assumes "regular body" and "fst (cycle_form body cfg env cf) = Inr True"
  shows "\<forall>x \<in> set (snd (snd (cycle_form body cfg env cf))). \<not> is_classification x"
proof -
  have "list_ex (\<lambda>i. completes body (env i)) (attempts_from cfg 1)"
    using assms(2) by (simp add: cycle_form_returns)
  then show ?thesis
    using segment_no_classification [OF assms(1)]
    by (simp add: cycle_form_trace)
qed

lemma cycle_form_failure_trace:
  assumes "fst (cycle_form body cfg env cf) = Inr False"
  shows "snd (snd (cycle_form body cfg env cf)) \<noteq> []
       \<and> last (snd (snd (cycle_form body cfg env cf))) =
           classify cfg (fst (snd (cycle_form body cfg env cf)))"
proof -
  have "\<not> list_ex (\<lambda>i. completes body (env i)) (attempts_from cfg 1)"
    using assms by (simp add: cycle_form_returns)
  then show ?thesis
    using cycle_form_trace [of body cfg env cf] by simp
qed

lemma cycle_form_failure_counter:
  assumes "regular body" and "0 \<le> cf" and "fst (cycle_form body cfg env cf) = Inr False"
  shows "0 < fst (snd (cycle_form body cfg env cf))"
  using assms(2,3) by (simp add: cycle_form_counter [OF assms(1)] cycle_form_returns)

lemma cycle_form_success_counter:
  assumes "regular body" and "fst (cycle_form body cfg env cf) = Inr True"
  shows "fst (snd (cycle_form body cfg env cf)) = 0"
  using assms(2) by (simp add: cycle_form_counter [OF assms(1)] cycle_form_returns)

lemma classify_Down:
  "parseInt (CONSECUTIVE_FAILURES_THRESHOLD cfg) = Some t \<Longrightarrow> classify cfg c = LogDown c \<longleftrightarrow> t \<le> c"
  by (simp add: classify_def num_ge_def)

lemma classify_Warn:
  "parseInt (CONSECUTIVE_FAILURES_THRESHOLD cfg) = Some t \<Longrightarrow> classify cfg c = LogWarn c \<longleftrightarrow> c < t"
  by (auto simp: classify_def num_ge_def)

lemma cycle_form_classified:
  assumes "regular body"
    and "parseInt (CONSECUTIVE_FAILURES_THRESHOLD cfg) = Some t"
    and "0 \<le> cf"
  shows "classified_by t (cycle_form body cfg env cf)"
proof -
  obtain r c tr where eq: "cycle_form body cfg env cf = (r, c, tr)"
    by (cases "cycle_form body cfg env cf")
  have "tr \<noteq> [] \<and> last tr = classify cfg c \<and> 0 < c" if "r = Inr False"
    using that eq cycle_form_failure_trace [of body cfg env cf]
      cycle_form_failure_counter [OF assms(1,3), of cfg env] by simp
  moreover have "c = 0 \<and> (\<forall>x \<in> set tr. \<not> is_classification x)" if "r = Inr True"
    using that eq cycle_form_success_trace [OF assms(1), of cfg env cf]
      cycle_form_success_counter [OF assms(1), of cfg env cf] by simp
  ultimately show ?thesis
    using classify_Down [OF assms(2)] classify_Warn [OF assms(2)]
    by (auto simp: classified_by_def eq)
qed

lemma upto_member_takeWhile:
  assumes "a \<le> i" "i \<le> k" "\<forall>j. a \<le> j \<and> j \<le> i \<longrightarrow> P j"
  shows "i \<in> set (takeWhile P [a..k])"
proof -
  have "[a..k] = [a..i] @ [i + 1..k]"
    using assms(1,2) by (rule upto_split2)
  moreover have "takeWhile P ([a..i] @ [i + 1..k]) = [a..i] @ takeWhile P [i + 1..k]"
    by (rule takeWhile_append2) (use assms(3) in auto)
  ultimately show ?thesis
    using assms(1) by simp
qed

lemma cycle_form_first_success:
  assumes "regular body"
    and "1 \<le> i" and "num_le i (parseInt (ATTEMPTS_PER_CYCLE cfg))"
    and "completes body (env i)"
    and "\<forall>j. 1 \<le> j \<and> j < i \<longrightarrow> \<not> completes body (env j)"
  shows "fst (cycle_form body cfg env cf) = Inr True"
    and "logged_attempts (snd (snd (cycle_form body cfg env cf))) = [1..i - 1]"
    and "\<forall>env'. (\<forall>j. 1 \<le> j \<and> j \<le> i \<longrightarrow> env' j = env j) \<longrightarrow>
           cycle_form body cfg env' cf = cycle_form body cfg env cf"
proof -
  obtain k where k: "parseInt (ATTEMPTS_PER_CYCLE cfg) = Some k" "i \<le> k"
    using assms(3) by (auto simp: num_le_def split: option.splits)
  have xs: "attempts_from cfg 1 = [1..k]"
    by (simp add: attempts_from_def k)
  have "i \<in> set (attempts_from cfg 1)"
    using assms(2,3) by (simp add: set_attempts_from)
  then show "fst (cycle_form body cfg env cf) = Inr True"
    using assms(4) by (auto simp: cycle_form_returns list_ex_iff)
  have "takeWhile (\<lambda>i. \<not> completes body (env i)) [1..k] = [1..i - 1]"
    using assms(2) k(2) assms(4,5) by (intro takeWhile_upto_first) auto
  then show "logged_attempts (snd (snd (cycle_form body cfg env cf))) = [1..i - 1]"
    by (simp add: cycle_form_logged_attempts [OF assms(1)] xs)
  have ex: "executed (\<lambda>i. completes body (env i)) [1..k] = [1..i]"
    using assms(2) k(2) assms(4,5) by (intro executed_upto_first) auto
  show "\<forall>env'. (\<forall>j. 1 \<le> j \<and> j \<le> i \<longrightarrow> env' j = env j) \<longrightarrow>
           cycle_form body cfg env' cf = cycle_form body cfg env cf"
  proof (intro allI impI)
    fix env'
    assume "\<forall>j. 1 \<le> j \<and> j \<le> i \<longrightarrow> env' j = env j"
    then show "cycle_form body cfg env' cf = cycle_form body cfg env cf"
      by (intro cycle_form_cong) (simp add: xs ex)
  qed
qed

lemma cycle_form_fails_iff:
  "fst (cycle_form body cfg env cf) = Inr False \<longleftrightarrow>
     (\<forall>i. 1 \<le> i \<and> num_le i (parseInt (ATTEMPTS_PER_CYCLE cfg)) \<longrightarrow> \<not> completes body (env i))"
  by (auto simp: cycle_form_returns list_ex_iff set_attempts_from)

lemma cycle_form_all_logged:
  assumes "regular body" and "fst (cycle_form body cfg env cf) = Inr False"
  shows "logged_attempts (snd (snd (cycle_form body cfg env cf))) = attempts_from cfg 1"
proof -
  have "\<forall>i \<in> set (attempts_from cfg 1). \<not> completes body (env i)"
    using assms(2) by (simp add: cycle_form_returns list_ex_iff)
  then have "takeWhile (\<lambda>i. \<not> completes body (env i)) (attempts_from cfg 1) = attempts_from cfg 1"
    by (simp add: takeWhile_eq_all_conv)
  then show ?thesis
    by (simp add: cycle_form_logged_attempts [OF assms(1)])
qed

lemma cycle_form_logs_error:
  assumes "regular body"
    and "1 \<le> i" and "num_le i (parseInt (ATTEMPTS_PER_CYCLE cfg))"
    and "\<forall>j. 1 \<le> j \<and> j < i \<longrightarrow> \<not> completes body (env j)"
    and "fst (body (env i) 0) = Inl err"
  shows "(i, err) \<in> set (logged_errors (snd (snd (cycle_form body cfg env cf))))"
proof -
  obtain k where k: "parseInt (ATTEMPTS_PER_CYCLE cfg) = Some k" "i \<le> k"
    using assms(3) by (auto simp: num_le_def split: option.splits)
  have xs: "attempts_from cfg 1 = [1..k]"
    by (simp add: attempts_from_def k)
  have "\<not> completes body (env i)"
    using assms(5) by (simp add: completes_def)
  with assms(4) have "\<forall>j. 1 \<le> j \<and> j \<le> i \<longrightarrow> \<not> completes body (env j)"
    by (metis order_le_less)
  then have "i \<in> set (takeWhile (\<lambda>i. \<not> completes body (env i)) [1..k])"
    using assms(2) k(2) by (intro upto_member_takeWhile) auto
  moreover have "(i, err) \<in> set (failure_of body env i)"
    using assms(5) by (simp add: failure_of_def)
  ultimately show ?thesis
    by (auto simp: cycle_form_logged [OF assms(1)] xs)
qed

lemma jitter_in_range:
  assumes "parseInt (JITTER_MS cfg) = Some jitterMax" and "0 < jitterMax"
    and "0 \<le> random e" and "random e < 1"
  shows "\<exists>d. jitter cfg e = Some d \<and> 0 \<le> d \<and> d < real_of_int jitterMax"
  using assms by (simp add: jitter_def)

lemma jitter_zero:
  assumes "parseInt (JITTER_MS cfg) = Some 0"
  shows "jitter cfg e = Some 0"
  using assms by (simp add: jitter_def)

lemma cycle_form_first_success_ends_cycle:
  assumes "regular body"
  shows "first_success_ends_cycle cfg (completes body) (\<lambda>env. cycle_form body cfg env cf) env"
  unfolding first_success_ends_cycle_def
proof (intro conjI allI impI)
  fix i
  assume h: "1 \<le> i \<and> num_le i (parseInt (ATTEMPTS_PER_CYCLE cfg)) \<and> completes body (env i)
    \<and> (\<forall>j. 1 \<le> j \<and> j < i \<longrightarrow> \<not> completes body (env j))"
  then have a: "1 \<le> i" and b: "num_le i (parseInt (ATTEMPTS_PER_CYCLE cfg))"
    and c: "completes body (env i)" and d: "\<forall>j. 1 \<le> j \<and> j < i \<longrightarrow> \<not> completes body (env j)"
    by simp_all
  show "fst (cycle_form body cfg env cf) = Inr True"
    using assms a b c d by (rule cycle_form_first_success(1))
  show "logged_attempts (snd (snd (cycle_form body cfg env cf))) = [1..i - 1]"
    using assms a b c d by (rule cycle_form_first_success(2))
  fix env'
  assume "\<forall>j. 1 \<le> j \<and> j \<le> i \<longrightarrow> env' j = env j"
  then show "cycle_form body cfg env' cf = cycle_form body cfg env cf"
    using cycle_form_first_success(3) [OF assms a b c d] by blast
next
  show "fst (cycle_form body cfg env cf) = Inr False \<longleftrightarrow>
     (\<forall>i. 1 \<le> i \<and> num_le i (parseInt (ATTEMPTS_PER_CYCLE cfg)) \<longrightarrow> \<not> completes body (env i))"
    by (rule cycle_form_fails_iff)
next
  assume "fst (cycle_form body cfg env cf) = Inr False"
  with assms show "logged_attempts (snd (snd (cycle_form body cfg env cf))) = attempts_from cfg 1"
    by (rule cycle_form_all_logged)
qed


lemma cycle_form_jitter:
  assumes "regular body"
  shows "jitter_between_attempts cfg (completes body) env (snd (snd (cycle_form body cfg env cf)))"
  unfolding jitter_between_attempts_def
proof (intro conjI allI impI)
  let ?tr = "snd (snd (cycle_form body cfg env cf))"
  let ?fs = "takeWhile (\<lambda>i. \<not> completes body (env i)) (attempts_from cfg 1)"
  note la = cycle_form_logged_attempts [OF assms, of cfg env cf]
  note waits = cycle_form_waits [OF assms, of cfg env cf]
  show "logged_attempts ?tr = ?fs"
    by (rule la)
  show w: "jitter_waits ?tr =
      map (\<lambda>i. (i, jitter cfg (env i)))
        (filter (\<lambda>i. num_lt i (parseInt (ATTEMPTS_PER_CYCLE cfg))) ?fs)"
    using waits unfolding la .
  show "sleeps ?tr = map snd (jitter_waits ?tr)"
    by (rule cycle_form_sleeps [OF assms])
  {
    fix k w
    assume "parseInt (ATTEMPTS_PER_CYCLE cfg) = Some k"
    then show "(k, w) \<notin> set (jitter_waits ?tr)"
      unfolding w by (auto simp: num_lt_def)
  }
  fix i
  assume h: "1 \<le> i \<and> num_lt i (parseInt (ATTEMPTS_PER_CYCLE cfg))
    \<and> (\<forall>j. 1 \<le> j \<and> j \<le> i \<longrightarrow> \<not> completes body (env j))"
  then obtain k where k: "parseInt (ATTEMPTS_PER_CYCLE cfg) = Some k" "i < k"
    by (auto simp: num_lt_def split: option.splits)
  have xs: "attempts_from cfg 1 = [1..k]"
    by (simp add: attempts_from_def k(1))
  have "i \<in> set (takeWhile (\<lambda>i. \<not> completes body (env i)) [1..k])"
    using h k(2) by (intro upto_member_takeWhile) auto
  then have "i \<in> set (filter (\<lambda>i. num_lt i (parseInt (ATTEMPTS_PER_CYCLE cfg))) ?fs)"
    using h by (simp add: xs)
  then show "(i, jitter cfg (env i)) \<in> set (jitter_waits ?tr)"
    unfolding w by (simp add: image_iff)
qed

lemma cycle_form_jitter_range:
  assumes "regular body"
  shows "jitter_range cfg env (snd (snd (cycle_form body cfg env cf)))"
  unfolding jitter_range_def
proof (intro conjI allI impI ballI)
  let ?tr = "snd (snd (cycle_form body cfg env cf))"
  note waits = cycle_form_waits [OF assms, of cfg env cf]
  note sl = cycle_form_sleeps [OF assms, of cfg env cf]
  {
    fix jitterMax w
    assume h: "parseInt (JITTER_MS cfg) = Some jitterMax \<and> 0 < jitterMax
      \<and> (\<forall>i. 0 \<le> random (env i) \<and> random (env i) < 1)"
      and "w \<in> set (sleeps ?tr)"
    then obtain i where "w = jitter cfg (env i)"
      unfolding sl waits by auto
    then show "\<exists>d. w = Some d \<and> 0 \<le> d \<and> d < real_of_int jitterMax"
      using jitter_in_range [of cfg jitterMax "env i"] h by simp
  }
  fix w
  assume z: "parseInt (JITTER_MS cfg) = Some 0" and "w \<in> set (sleeps ?tr)"
  then obtain i where "w = jitter cfg (env i)"
    unfolding sl waits by auto
  then show "w = Some 0"
    using jitter_zero [OF z] by simp
qed

lemma completes_try_block:
  "completes (try_block cfg (toLowerCase (RCON_TRANSPORT cfg))) e \<longleftrightarrow>
     exchange_succeeds cfg e \<and> post_result e = None"
  by (simp add: completes_def exchange_succeeds_def try_block_def
      split: prod.splits sum.splits option.splits)

lemma completes_try_block_index:
  "completes (try_block_index cfg) e \<longleftrightarrow> exchange_succeeds_index e \<and> post_result e = None"
  by (auto simp: completes_def exchange_succeeds_index_def try_block_index_def
      split: sum.splits option.splits)


lemma unknown_transport_try_block:
  assumes "tr \<noteq> ''classic''" and "tr \<noteq> ''web''"
  shows "try_block cfg tr e cf = (Inl (new_Error (''Unknown RCON_TRANSPORT: '' @ RCON_TRANSPORT cfg)), cf, [])"
  using assms by (simp add: try_block_def exchange_def)

lemma executed_False: "executed (\<lambda>i. False) xs = xs"
  by (induction xs) simp_all

lemma unknown_transport_cycle:
  assumes "toLowerCase (RCON_TRANSPORT cfg) \<noteq> ''classic''"
    and "toLowerCase (RCON_TRANSPORT cfg) \<noteq> ''web''"
  shows "checkServerWithRetry cfg env cf =
     (Inr False, cf + 1,
      concat (map (\<lambda>i. catch_block cfg (env i) i
                (new_Error (''Unknown RCON_TRANSPORT: '' @ RCON_TRANSPORT cfg)))
              (attempts_from cfg 1)) @
      [classify cfg (cf + 1)])"
proof -
  let ?body = "try_block cfg (toLowerCase (RCON_TRANSPORT cfg))"
  note tb = unknown_transport_try_block [OF assms]
  have nc: "\<And>e. \<not> completes ?body e"
    by (simp add: completes_def tb)
  have nr: "\<And>e. \<not> resets ?body e"
    by (simp add: resets_def tb)
  have seg: "segment ?body cfg env = (\<lambda>i. catch_block cfg (env i) i
                (new_Error (''Unknown RCON_TRANSPORT: '' @ RCON_TRANSPORT cfg)))"
    by (rule ext) (simp add: segment_def tb)
  show ?thesis
    by (simp add: checkServerWithRetry_closed cycle_form_def closed_form_def executed_False seg
        nc nr list_ex_iff Let_def)
qed

lemma catch_block_not_probe: "\<forall>x \<in> set (catch_block cfg e i err). \<not> probe_event x \<and> x \<noteq> HttpPost"
  by (simp add: catch_block_eq)

lemma classify_not_probe: "\<not> probe_event (classify cfg c) \<and> classify cfg c \<noteq> HttpPost"
  using classify_cases [of cfg c] by auto

lemma logged_errors_catch_block: "logged_errors (catch_block cfg e i err) = [(i, err)]"
  by (simp add: catch_block_eq logged_errors_Cons)

lemma logged_errors_catch_blocks:
  "logged_errors (concat (map (\<lambda>i. catch_block cfg (env i) i err) xs)) = map (\<lambda>i. (i, err)) xs"
  by (induction xs) (simp_all add: logged_errors_catch_block)

lemma resets_try_block:
  "resets (try_block cfg (toLowerCase (RCON_TRANSPORT cfg))) e \<longleftrightarrow> exchange_succeeds cfg e"
  by (auto simp: resets_def try_block_def exchange_succeeds_def split: prod.splits sum.splits option.splits)

lemma resets_try_block_index:
  "resets (try_block_index cfg) e \<longleftrightarrow> exchange_succeeds_index e"
  by (auto simp: resets_def try_block_index_def exchange_succeeds_index_def
      split: option.splits sum.splits)

lemma posts_Nil [simp]: "posts [] = 0"
  by (simp add: posts_def)

lemma posts_probe: "\<forall>x \<in> set out. probe_event x \<Longrightarrow> posts out = 0"
  by (induction out) (auto simp: posts_def)

lemma try_block_posts_once: "posts_once (try_block cfg tr)"
proof -
  have "posts (snd (snd (try_block cfg tr e 0))) = (if resets (try_block cfg tr) e then 1 else 0)" for e
  proof -
    obtain r out where ex: "exchange cfg tr e = (r, out)"
      by (cases "exchange cfg tr e")
    have "posts out = 0"
      using exchange_probe [of cfg tr e] ex by (simp add: posts_probe)
    then show ?thesis
      by (simp add: try_block_def resets_def ex posts_def split: sum.splits option.splits)
  qed
  then show ?thesis
    by (simp add: posts_once_def)
qed

lemma posts_catch_block [simp]: "posts (catch_block cfg e i err) = 0"
  by (simp add: catch_block_eq posts_def)

lemma posts_classify [simp]: "posts [classify cfg c] = 0"
  using classify_cases [of cfg c] by (auto simp: posts_def)

lemma posts_segment:
  assumes "posts_once body"
  shows "posts (segment body cfg env i) = (if resets body (env i) then 1 else 0)"
  using assms by (simp add: segment_def posts_once_def split: sum.splits)

lemma posts_segments:
  assumes "posts_once body"
  shows "posts (concat (map (segment body cfg env) ex)) =
         length (filter (\<lambda>i. resets body (env i)) ex)"
  by (induction ex) (simp_all add: posts_segment [OF assms])

lemma filter_resets_executed:
  assumes "regular body"
  shows "length (filter (\<lambda>i. resets body (env i)) (executed (\<lambda>i. completes body (env i)) xs)) =
         length (filter (\<lambda>i. resets body (env i)) (takeWhile (\<lambda>i. \<not> completes body (env i)) xs))
         + (if list_ex (\<lambda>i. completes body (env i)) xs then 1 else 0)"
  using regular_completes_resets [OF assms] by (induction xs) auto

lemma cycle_form_posts:
  assumes "regular body" and "posts_once body"
  shows "posts (snd (snd (cycle_form body cfg env cf))) =
         length (filter (\<lambda>i. resets body (env i))
           (logged_attempts (snd (snd (cycle_form body cfg env cf)))))
         + (if fst (cycle_form body cfg env cf) = Inr True then 1 else 0)"
proof -
  let ?ok = "\<lambda>i. completes body (env i)"
  have la: "logged_attempts (snd (snd (cycle_form body cfg env cf))) =
      takeWhile (\<lambda>i. \<not> ?ok i) (attempts_from cfg 1)"
    by (rule cycle_form_logged_attempts [OF assms(1)])
  have "posts (snd (snd (cycle_form body cfg env cf))) =
      posts (concat (map (segment body cfg env) (executed ?ok (attempts_from cfg 1))))"
    using cycle_form_trace [of body cfg env cf] by simp
  also have "\<dots> = length (filter (\<lambda>i. resets body (env i)) (executed ?ok (attempts_from cfg 1)))"
    by (rule posts_segments [OF assms(2)])
  also have "\<dots> = length (filter (\<lambda>i. resets body (env i))
        (takeWhile (\<lambda>i. \<not> ?ok i) (attempts_from cfg 1)))
      + (if list_ex ?ok (attempts_from cfg 1) then 1 else 0)"
    by (rule filter_resets_executed [OF assms(1)])
  finally show ?thesis
    unfolding la by (simp add: cycle_form_returns)
qed

lemma cycle_form_counter_rule:
  assumes "regular body" and "0 \<le> cf"
  shows "counter_rule cfg (resets body) env cf (cycle_form body cfg env cf)"
proof -
  obtain r c tr where eq: "cycle_form body cfg env cf = (r, c, tr)"
    by (cases "cycle_form body cfg env cf")
  have r: "r = Inr (list_ex (\<lambda>i. completes body (env i)) (attempts_from cfg 1))"
    using cycle_form_returns [of body cfg env cf] eq by simp
  have c: "c = (if list_ex (\<lambda>i. completes body (env i)) (attempts_from cfg 1) then 0
          else if list_ex (\<lambda>i. resets body (env i)) (attempts_from cfg 1) then 1
          else cf + 1)"
    using cycle_form_counter [OF assms(1), of cfg env cf] eq by simp
  show ?thesis
    using assms(2) by (simp add: counter_rule_def eq r c)
qed

lemma cycle_form_outage:
  assumes "regular body"
    and "\<not> list_ex (\<lambda>i. resets body (env i)) (attempts_from cfg 1)"
  shows "fst (cycle_form body cfg env cf) = Inr False"
    and "fst (snd (cycle_form body cfg env cf)) = cf + 1"
proof -
  have "\<not> list_ex (\<lambda>i. completes body (env i)) (attempts_from cfg 1)"
    using assms(2) regular_completes_resets [OF assms(1)] by (auto simp: list_ex_iff)
  then show "fst (cycle_form body cfg env cf) = Inr False"
    and "fst (snd (cycle_form body cfg env cf)) = cf + 1"
    using assms(2) by (simp_all add: cycle_form_returns cycle_form_counter [OF assms(1)])
qed

lemma loop_outages:
  assumes "\<forall>env \<in> set envs. \<not> list_ex (\<lambda>i. exchange_succeeds cfg (env i)) (attempts_from cfg 1)"
  shows "fst (loop cfg envs cf) = cf + int (length envs)"
  using assms
proof (induction envs arbitrary: cf)
  case Nil
  show ?case by simp
next
  case (Cons env envs)
  let ?body = "try_block cfg (toLowerCase (RCON_TRANSPORT cfg))"
  have no: "\<not> list_ex (\<lambda>i. resets ?body (env i)) (attempts_from cfg 1)"
    using Cons.prems by (simp add: resets_try_block)
  obtain r c out where eq: "checkServerWithRetry cfg env cf = (r, c, out)"
    by (cases "checkServerWithRetry cfg env cf")
  have "r = Inr False" and "c = cf + 1"
    using cycle_form_outage [OF try_block_regular no, of cf] eq
    by (simp_all add: checkServerWithRetry_closed)
  moreover have "fst (loop cfg envs (cf + 1)) = cf + 1 + int (length envs)"
    using Cons.prems by (intro Cons.IH) simp
  ultimately show ?case
    by (auto simp: eq split: prod.splits)
qed

lemma loop_index_outages:
  assumes "\<forall>env \<in> set envs. \<not> list_ex (\<lambda>i. exchange_succeeds_index (env i)) (attempts_from cfg 1)"
  shows "fst (loop_index cfg envs cf) = cf + int (length envs)"
  using assms
proof (induction envs arbitrary: cf)
  case Nil
  show ?case by simp
next
  case (Cons env envs)
  let ?body = "try_block_index cfg"
  have no: "\<not> list_ex (\<lambda>i. resets ?body (env i)) (attempts_from cfg 1)"
    using Cons.prems by (simp add: resets_try_block_index)
  obtain r c out where eq: "checkServerWithRetry_index cfg env cf = (r, c, out)"
    by (cases "checkServerWithRetry_index cfg env cf")
  have "r = Inr False" and "c = cf + 1"
    using cycle_form_outage [OF try_block_index_regular no, of cf] eq
    by (simp_all add: checkServerWithRetry_index_closed)
  moreover have "fst (loop_index cfg envs (cf + 1)) = cf + 1 + int (length envs)"
    using Cons.prems by (intro Cons.IH) simp
  ultimately show ?case
    by (auto simp: eq split: prod.splits)
qed

lemma response_previews_Nil [simp]: "response_previews [] = []"
  by (simp add: response_previews_def)

lemma response_previews_append [simp]:
  "response_previews (xs @ ys) = response_previews xs @ response_previews ys"
  by (simp add: response_previews_def)

lemma commands_sent_Nil [simp]: "commands_sent [] = []"
  by (simp add: commands_sent_def)

lemma commands_sent_append [simp]:
  "commands_sent (xs @ ys) = commands_sent xs @ commands_sent ys"
  by (simp add: commands_sent_def)

lemma ws_run_settled: "outcome st = Some r \<Longrightarrow> ws_run cfg t st evs = (r, [])"
  by (cases evs) simp_all

lemma ws_run_step:
  "outcome st = None \<Longrightarrow>
   ws_run cfg t st (ev # evs) =
     (fst (ws_run cfg t (fst (on_event cfg t st ev)) evs),
      snd (on_event cfg t st ev) @ snd (ws_run cfg t (fst (on_event cfg t st ev)) evs))"
  by (simp split: prod.splits)

lemma keeps_pending_step:
  assumes "\<not> authSuccess st" and "keeps_pending ev"
  shows "fst (on_event cfg t st ev) = st"
    and "response_previews (snd (on_event cfg t st ev)) = []"
    and "commands_sent (snd (on_event cfg t st ev)) = []"
  using assms
  by (induction ev rule: keeps_pending.induct)
     (simp_all add: on_event_def on_message_def response_previews_def commands_sent_def)

lemma passes_after_auth_step:
  assumes "authSuccess st" and "commandId st = Some t" and "passes_after_auth t ev"
  shows "fst (on_event cfg t' st ev) = st"
    and "response_previews (snd (on_event cfg t' st ev)) = []"
    and "commands_sent (snd (on_event cfg t' st ev)) = []"
  using assms
  by (induction t ev rule: passes_after_auth.induct)
     (simp_all add: on_event_def on_message_def matches_commandId_def response_previews_def
       commands_sent_def)

lemma ws_run_pending_prefix:
  assumes "\<not> authSuccess st" and "outcome st = None" and "\<forall>e \<in> set pre. keeps_pending e"
  shows "fst (ws_run cfg t st (pre @ rest)) = fst (ws_run cfg t st rest)
       \<and> response_previews (snd (ws_run cfg t st (pre @ rest))) =
           response_previews (snd (ws_run cfg t st rest))
       \<and> commands_sent (snd (ws_run cfg t st (pre @ rest))) =
           commands_sent (snd (ws_run cfg t st rest))"
  using assms(3)
proof (induction pre)
  case Nil
  show ?case by simp
next
  case (Cons ev pre)
  then have kp: "keeps_pending ev" and rest: "\<forall>e \<in> set pre. keeps_pending e"
    by simp_all
  note step = keeps_pending_step [OF assms(1) kp, of cfg t]
  show ?case
    using Cons.IH [OF rest] step
    by (simp add: ws_run_step [OF assms(2)] del: ws_run.simps)
qed

lemma ws_run_after_auth_prefix:
  assumes "authSuccess st" and "commandId st = Some t" and "outcome st = None"
    and "\<forall>e \<in> set mid. passes_after_auth t e"
  shows "fst (ws_run cfg t' st (mid @ rest)) = fst (ws_run cfg t' st rest)
       \<and> response_previews (snd (ws_run cfg t' st (mid @ rest))) =
           response_previews (snd (ws_run cfg t' st rest))
       \<and> commands_sent (snd (ws_run cfg t' st (mid @ rest))) =
           commands_sent (snd (ws_run cfg t' st rest))"
  using assms(4)
proof (induction mid)
  case Nil
  show ?case by simp
next
  case (Cons ev mid)
  then have pa: "passes_after_auth t ev" and rest: "\<forall>e \<in> set mid. passes_after_auth t e"
    by simp_all
  note step = passes_after_auth_step [OF assms(1,2) pa, of cfg t']
  show ?case
    using Cons.IH [OF rest] step
    by (simp add: ws_run_step [OF assms(3)] del: ws_run.simps)
qed

lemma on_message_before_auth:
  assumes "\<not> authSuccess st" and "outcome st = None"
  shows "outcome (fst (on_message cfg t st fr)) \<noteq> Some (Inr b)"
    and "response_previews (snd (on_message cfg t st fr)) = []"
  using assms
  by (simp_all add: on_message_def settle_def response_previews_def split: frame.splits)

lemma on_event_stays_pending:
  assumes "\<not> authSuccess st" and "outcome st = None"
    and "\<forall>m. ev \<noteq> EvMessage (Msg (JNum (- 1)) m)"
  shows "(\<exists>e. outcome (fst (on_event cfg t st ev)) = Some (Inl e))
       \<or> fst (on_event cfg t st ev) = st"
  using assms
  by (auto simp: on_event_def on_message_def settle_def split: ws_event.splits frame.splits)

lemma ws_run_resolved_needs_signal:
  assumes "fst (ws_run cfg t st evs) = Inr b" and "\<not> authSuccess st" and "outcome st = None"
  shows "\<exists>pre m rest. evs = pre @ EvMessage (Msg (JNum (- 1)) m) # rest"
  using assms
proof (induction evs)
  case Nil
  then show ?case by simp
next
  case (Cons ev evs)
  show ?case
  proof (cases "\<exists>m. ev = EvMessage (Msg (JNum (- 1)) m)")
    case True
    then obtain m where "ev = EvMessage (Msg (JNum (- 1)) m)" ..
    then have "ev # evs = [] @ EvMessage (Msg (JNum (- 1)) m) # evs"
      by simp
    then show ?thesis by blast
  next
    case False
    then have no: "\<forall>m. ev \<noteq> EvMessage (Msg (JNum (- 1)) m)"
      by simp
    have run: "fst (ws_run cfg t (fst (on_event cfg t st ev)) evs) = Inr b"
      using Cons.prems(1) by (simp add: ws_run_step [OF Cons.prems(3)] del: ws_run.simps)
    from on_event_stays_pending [OF Cons.prems(2,3) no, of cfg t]
    show ?thesis
    proof
      assume "\<exists>e. outcome (fst (on_event cfg t st ev)) = Some (Inl e)"
      then obtain e where "outcome (fst (on_event cfg t st ev)) = Some (Inl e)" ..
      then have "ws_run cfg t (fst (on_event cfg t st ev)) evs = (Inl e, [])"
        by (rule ws_run_settled)
      with run show ?thesis by simp
    next
      assume same: "fst (on_event cfg t st ev) = st"
      then have "fst (ws_run cfg t st evs) = Inr b"
        using run by simp
      then obtain pre m rest where "evs = pre @ EvMessage (Msg (JNum (- 1)) m) # rest"
        using Cons.IH Cons.prems(2,3) by blast
      then have "ev # evs = (ev # pre) @ EvMessage (Msg (JNum (- 1)) m) # rest"
        by simp
      then show ?thesis by blast
    qed
  qed
qed

lemma checkServerWebRCON_fst:
  "constructor_error env = None \<Longrightarrow>
   fst (checkServerWebRCON cfg env) = fst (ws_run cfg (now env) ws_initial (events env))"
  by (simp add: checkServerWebRCON_def split: prod.splits)

lemma checkServerWebRCON_snd:
  "constructor_error env = None \<Longrightarrow>
   snd (checkServerWebRCON cfg env) = WsConnect # snd (ws_run cfg (now env) ws_initial (events env))"
  by (simp add: checkServerWebRCON_def split: prod.splits)

section \<open>Sample cycles\<close>

lemma parseInt_samples:
  "parseInt ''3'' = Some 3" "parseInt ''300'' = Some 300" "parseInt ''2'' = Some 2"
  "parseInt ''60'' = Some 60"
  by (simp_all add: parseInt_def is_space_def is_digit_def digits_value_def digit_value_def)

lemma parseInt_zero: "parseInt ''0'' = Some 0"
  by (simp add: parseInt_def is_space_def is_digit_def digits_value_def digit_value_def)

lemma toLowerCase_samples:
  "toLowerCase ''web'' = ''web''" "toLowerCase ''classic'' = ''classic''"
  "toLowerCase ''udp'' = ''udp''"
  by (simp_all add: toLowerCase_def toLowerCase_char_def)

lemmas sample_defs = cfg_web_def cfg_classic_def cfg_udp_def default_config_def
  attempt_up_def attempt_down_def attempt_unreported_def classic_up_def classic_down_def
  web_up_def web_down_def econnrefused_def bad_response_def

lemmas run_defs = checkServerWithRetry_def attempts.simps try_block_def exchange_def
  checkServerClassicRCON_def checkServerWebRCON_def ws_initial_def on_event_def
  on_message_def settle_def matches_commandId_def preview_of_def catch_block_def jitter_def
  classify_def num_le_def num_lt_def num_ge_def new_Error_def parseInt_samples
  toLowerCase_samples Let_def

lemmas run_index_defs = checkServerWithRetry_index_def attempts_index.simps try_block_index_def
  catch_block_def jitter_def classify_def num_le_def num_lt_def num_ge_def parseInt_samples

lemma web_down_cycle:
  "checkServerWithRetry cfg_web (\<lambda>i. attempt_down) 0 =
     (Inr False, 1,
      [WsConnect, LogAttempt 1 (new_Error ''WebRCON timeout''), Sleep (Some 150),
       WsConnect, LogAttempt 2 (new_Error ''WebRCON timeout''), Sleep (Some 150),
       WsConnect, LogAttempt 3 (new_Error ''WebRCON timeout''), LogWarn 1])"
  by (simp add: sample_defs run_defs)

lemma web_down_again_cycle:
  "checkServerWithRetry cfg_web (\<lambda>i. attempt_down) 1 =
     (Inr False, 2,
      [WsConnect, LogAttempt 1 (new_Error ''WebRCON timeout''), Sleep (Some 150),
       WsConnect, LogAttempt 2 (new_Error ''WebRCON timeout''), Sleep (Some 150),
       WsConnect, LogAttempt 3 (new_Error ''WebRCON timeout''), LogDown 2])"
  by (simp add: sample_defs run_defs)

lemma web_second_attempt_cycle:
  "checkServerWithRetry cfg_web (\<lambda>i. if i = 2 then attempt_up else attempt_down) 1 =
     (Inr True, 0,
      [WsConnect, LogAttempt 1 (new_Error ''WebRCON timeout''), Sleep (Some 150),
       WsConnect, WsSend (RconMessage 1 ''secret'' ''monitor'' ''auth''),
       WsSend (RconMessage 1700000000000 ''status'' ''monitor'' ''command''),
       LogUpWeb ''hostname: X'', HttpPost, LogHeartbeat])"
  by (simp add: sample_defs run_defs)

lemma web_unreported_cycle:
  "checkServerWithRetry cfg_web (\<lambda>i. attempt_unreported) c =
     (Inr False, 1,
      [WsConnect, WsSend (RconMessage 1 ''secret'' ''monitor'' ''auth''),
       WsSend (RconMessage 1700000000000 ''status'' ''monitor'' ''command''),
       LogUpWeb ''hostname: X'', HttpPost, LogAttempt 1 bad_response, Sleep (Some 150),
       WsConnect, WsSend (RconMessage 1 ''secret'' ''monitor'' ''auth''),
       WsSend (RconMessage 1700000000000 ''status'' ''monitor'' ''command''),
       LogUpWeb ''hostname: X'', HttpPost, LogAttempt 2 bad_response, Sleep (Some 150),
       WsConnect, WsSend (RconMessage 1 ''secret'' ''monitor'' ''auth''),
       WsSend (RconMessage 1700000000000 ''status'' ''monitor'' ''command''),
       LogUpWeb ''hostname: X'', HttpPost, LogAttempt 3 bad_response, LogWarn 1])"
  by (simp add: sample_defs run_defs)

lemma web_reported_late_cycle:
  "checkServerWithRetry cfg_web (\<lambda>i. if i = 1 then attempt_unreported else attempt_up) c =
     (Inr True, 0,
      [WsConnect, WsSend (RconMessage 1 ''secret'' ''monitor'' ''auth''),
       WsSend (RconMessage 1700000000000 ''status'' ''monitor'' ''command''),
       LogUpWeb ''hostname: X'', HttpPost, LogAttempt 1 bad_response, Sleep (Some 150),
       WsConnect, WsSend (RconMessage 1 ''secret'' ''monitor'' ''auth''),
       WsSend (RconMessage 1700000000000 ''status'' ''monitor'' ''command''),
       LogUpWeb ''hostname: X'', HttpPost, LogHeartbeat])"
  by (simp add: sample_defs run_defs)

lemma index_unreported_cycle:
  "checkServerWithRetry_index cfg_classic (\<lambda>i. attempt_unreported) c =
     (Inr False, 1,
      [RconConnect, RconSend ''status'', LogUpClassic ''hostname: X'', RconEnd, HttpPost, RconEnd,
       LogAttempt 1 bad_response, Sleep (Some 150),
       RconConnect, RconSend ''status'', LogUpClassic ''hostname: X'', RconEnd, HttpPost, RconEnd,
       LogAttempt 2 bad_response, Sleep (Some 150),
       RconConnect, RconSend ''status'', LogUpClassic ''hostname: X'', RconEnd, HttpPost, RconEnd,
       LogAttempt 3 bad_response, LogWarn 1])"
  by (simp add: sample_defs run_index_defs)

lemma web_no_jitter_cycle:
  "checkServerWithRetry cfg_no_jitter (\<lambda>i. attempt_down) 0 =
     (Inr False, 1,
      [WsConnect, LogAttempt 1 (new_Error ''WebRCON timeout''), Sleep (Some 0),
       WsConnect, LogAttempt 2 (new_Error ''WebRCON timeout''), Sleep (Some 0),
       WsConnect, LogAttempt 3 (new_Error ''WebRCON timeout''), LogWarn 1])"
  by (simp add: cfg_no_jitter_def sample_defs run_defs parseInt_zero)

lemma web_hung_cycle:
  "checkServerWithRetry cfg_web (\<lambda>i. attempt_hung) 0 =
     (Inr False, 1,
      [WsConnect, LogAttempt 1 (new_Error ''WebRCON timeout''), Sleep (Some 150),
       WsConnect, LogAttempt 2 (new_Error ''WebRCON timeout''), Sleep (Some 150),
       WsConnect, LogAttempt 3 (new_Error ''WebRCON timeout''), LogWarn 1])"
  by (simp add: attempt_hung_def web_hung_def sample_defs run_defs)

section \<open>The claims\<close>

text \<open>
  C4. After a failed cycle the classification is ``down'' if and only if the counter has
  reached the threshold, and ``warn'' if and only if the counter is positive and below
  the threshold; a counter of 0 goes with a successful cycle, which prints neither. This
  holds of the comparison of lines 173-177 for every counter value and every threshold, and
  of the last line of every failed cycle of both files, the counter being the one the
  cycle leaves behind.
\<close>

theorem classification_by_threshold:
  assumes "parseInt (CONSECUTIVE_FAILURES_THRESHOLD cfg) = Some threshold"
    and "0 \<le> consecutiveFailures"
  shows "(classify cfg c = LogDown c \<longleftrightarrow> threshold \<le> c)
       \<and> (classify cfg c = LogWarn c \<longleftrightarrow> c < threshold)
       \<and> classified_by threshold (checkServerWithRetry cfg env consecutiveFailures)
       \<and> classified_by threshold (checkServerWithRetry_index cfg env consecutiveFailures)"
  using assms classify_Down [OF assms(1)] classify_Warn [OF assms(1)]
    cycle_form_classified [OF try_block_regular assms]
    cycle_form_classified [OF try_block_index_regular assms]
  by (simp add: checkServerWithRetry_closed checkServerWithRetry_index_closed)

theorem classification_by_threshold_witness:
  "parseInt (CONSECUTIVE_FAILURES_THRESHOLD cfg_web) = Some 2
   \<and> fst (checkServerWithRetry cfg_web (\<lambda>i. attempt_down) 0) = Inr False
   \<and> last (snd (snd (checkServerWithRetry cfg_web (\<lambda>i. attempt_down) 0))) = LogWarn 1
   \<and> fst (checkServerWithRetry cfg_web (\<lambda>i. attempt_down) 1) = Inr False
   \<and> last (snd (snd (checkServerWithRetry cfg_web (\<lambda>i. attempt_down) 1))) = LogDown 2
   \<and> fst (checkServerWithRetry cfg_web (\<lambda>i. if i = 2 then attempt_up else attempt_down) 1) = Inr True
   \<and> fst (snd (checkServerWithRetry cfg_web (\<lambda>i. if i = 2 then attempt_up else attempt_down) 1)) = 0
   \<and> classify cfg_web 2 = LogDown 2 \<and> classify cfg_web 1 = LogWarn 1"
proof -
  have t: "parseInt (CONSECUTIVE_FAILURES_THRESHOLD cfg_web) = Some 2"
    by (simp add: cfg_web_def default_config_def parseInt_samples)
  note warn = classification_by_threshold [OF t, of 0 1 "\<lambda>i. attempt_down"]
  note down = classification_by_threshold [OF t, of 1 2 "\<lambda>i. attempt_down"]
  note up = classification_by_threshold [OF t, of 1 0 "\<lambda>i. if i = 2 then attempt_up else attempt_down"]
  show ?thesis
    using t warn down up
    by (simp add: classified_by_def web_down_cycle web_down_again_cycle web_second_attempt_cycle)
qed

text \<open>
  C5, as the code has it. An attempt is the whole \<^verbatim>\<open>try\<close> block: it succeeds when its
  liveness exchange succeeds and its heartbeat POST succeeds as well. Within a cycle, the
  first attempt that succeeds in this sense makes the cycle succeed at once: the failed
  attempts are the earlier ones and no later attempt runs. The cycle fails exactly when
  every configured attempt fails in this sense, and then all of them have run. An attempt
  whose liveness exchange succeeds and whose POST fails is a failed attempt and does not
  end the cycle. Both files.
\<close>

theorem first_success_ends_the_cycle:
  "first_success_ends_cycle cfg (attempt_succeeds cfg)
     (\<lambda>env. checkServerWithRetry cfg env consecutiveFailures) env
   \<and> first_success_ends_cycle cfg (attempt_succeeds_index cfg)
     (\<lambda>env. checkServerWithRetry_index cfg env consecutiveFailures) env
   \<and> (attempt_succeeds cfg e \<longleftrightarrow> exchange_succeeds cfg e \<and> post_result e = None)
   \<and> (attempt_succeeds_index cfg e \<longleftrightarrow> exchange_succeeds_index e \<and> post_result e = None)"
proof -
  have "attempt_succeeds cfg = completes (try_block cfg (toLowerCase (RCON_TRANSPORT cfg)))"
    by (rule ext) (simp add: attempt_succeeds_def)
  moreover have "attempt_succeeds_index cfg = completes (try_block_index cfg)"
    by (rule ext) (simp add: attempt_succeeds_index_def)
  ultimately show ?thesis
    using cycle_form_first_success_ends_cycle [OF try_block_regular]
      cycle_form_first_success_ends_cycle [OF try_block_index_regular]
    by (simp add: checkServerWithRetry_closed checkServerWithRetry_index_closed
        completes_try_block completes_try_block_index)
qed

theorem first_success_ends_the_cycle_witness:
  "attempt_succeeds cfg_web attempt_up \<and> \<not> attempt_succeeds cfg_web attempt_down
   \<and> fst (checkServerWithRetry cfg_web (\<lambda>i. if i = 2 then attempt_up else attempt_down) 1) = Inr True
   \<and> logged_attempts (snd (snd (checkServerWithRetry cfg_web
         (\<lambda>i. if i = 2 then attempt_up else attempt_down) 1))) = [1]
   \<and> checkServerWithRetry cfg_web
         (\<lambda>i. if i = 2 then attempt_up else if i = 3 then attempt_unreported else attempt_down) 1 =
       checkServerWithRetry cfg_web (\<lambda>i. if i = 2 then attempt_up else attempt_down) 1
   \<and> fst (checkServerWithRetry cfg_web (\<lambda>i. attempt_down) 0) = Inr False
   \<and> logged_attempts (snd (snd (checkServerWithRetry cfg_web (\<lambda>i. attempt_down) 0))) = [1, 2, 3]
   \<and> exchange_succeeds cfg_web attempt_unreported \<and> \<not> attempt_succeeds cfg_web attempt_unreported
   \<and> \<not> attempt_succeeds_index cfg_web attempt_down
   \<and> fst (checkServerWithRetry_index cfg_web (\<lambda>i. attempt_down) 0) = Inr False
   \<and> logged_attempts (snd (snd (checkServerWithRetry_index cfg_web (\<lambda>i. attempt_down) 0))) =
       [1, 2, 3]"
proof -
  let ?env = "\<lambda>i::int. if i = 2 then attempt_up else attempt_down"
  let ?env' = "\<lambda>i::int. if i = 2 then attempt_up else if i = 3 then attempt_unreported else attempt_down"
  have ex: "exchange_succeeds cfg_web attempt_unreported"
    by (simp add: exchange_succeeds_def sample_defs run_defs)
  have "attempt_succeeds cfg_web attempt_unreported \<longleftrightarrow>
      exchange_succeeds cfg_web attempt_unreported \<and> post_result attempt_unreported = None"
    by (rule first_success_ends_the_cycle [where cfg = cfg_web and e = attempt_unreported,
          THEN conjunct2, THEN conjunct2, THEN conjunct1])
  then have unrep: "\<not> attempt_succeeds cfg_web attempt_unreported"
    by (simp add: sample_defs)
  have "attempt_succeeds_index cfg_web attempt_down \<longleftrightarrow>
      exchange_succeeds_index attempt_down \<and> post_result attempt_down = None"
    by (rule first_success_ends_the_cycle [where cfg = cfg_web and e = attempt_down,
          THEN conjunct2, THEN conjunct2, THEN conjunct2])
  then have downi: "\<not> attempt_succeeds_index cfg_web attempt_down"
    by (simp add: exchange_succeeds_index_def sample_defs)
  have nonei: "first_success_ends_cycle cfg_web (attempt_succeeds_index cfg_web)
     (\<lambda>env. checkServerWithRetry_index cfg_web env 0) (\<lambda>i. attempt_down)"
    by (rule first_success_ends_the_cycle [of cfg_web 0 "\<lambda>i. attempt_down",
          THEN conjunct2, THEN conjunct1])
  have failsi: "\<forall>i. 1 \<le> i \<and> num_le i (parseInt (ATTEMPTS_PER_CYCLE cfg_web)) \<longrightarrow>
      \<not> attempt_succeeds_index cfg_web attempt_down"
    using downi by simp
  have i4: "fst (checkServerWithRetry_index cfg_web (\<lambda>i. attempt_down) 0) = Inr False"
    using nonei [unfolded first_success_ends_cycle_def, THEN conjunct2, THEN conjunct1] failsi
    by (rule iffD2)
  have up: "attempt_succeeds cfg_web attempt_up"
    by (simp add: attempt_succeeds_def completes_def sample_defs run_defs)
  have down: "\<not> attempt_succeeds cfg_web attempt_down"
    by (simp add: attempt_succeeds_def completes_def sample_defs run_defs)
  have k: "num_le 2 (parseInt (ATTEMPTS_PER_CYCLE cfg_web))"
    by (simp add: sample_defs num_le_def parseInt_samples)
  have xs: "attempts_from cfg_web 1 = [1, 2, 3]"
    by (simp add: attempts_from_def sample_defs parseInt_samples upto_rec1)
  have before: "\<forall>j. 1 \<le> j \<and> j < 2 \<longrightarrow> \<not> attempt_succeeds cfg_web (?env j)"
    using down by simp
  have same: "\<forall>j. 1 \<le> j \<and> j \<le> 2 \<longrightarrow> ?env' j = ?env j"
    by simp
  have first: "first_success_ends_cycle cfg_web (attempt_succeeds cfg_web)
     (\<lambda>env. checkServerWithRetry cfg_web env 1) ?env"
    by (rule first_success_ends_the_cycle [of cfg_web 1 ?env, THEN conjunct1])
  have none: "first_success_ends_cycle cfg_web (attempt_succeeds cfg_web)
     (\<lambda>env. checkServerWithRetry cfg_web env 0) (\<lambda>i. attempt_down)"
    by (rule first_success_ends_the_cycle [of cfg_web 0 "\<lambda>i. attempt_down", THEN conjunct1])
  note at2 = first [unfolded first_success_ends_cycle_def, THEN conjunct1, rule_format, of 2]
  have hyp: "1 \<le> (2::int) \<and> num_le 2 (parseInt (ATTEMPTS_PER_CYCLE cfg_web))
      \<and> attempt_succeeds cfg_web (?env 2)
      \<and> (\<forall>j. 1 \<le> j \<and> j < 2 \<longrightarrow> \<not> attempt_succeeds cfg_web (?env j))"
    using k up before by simp
  have r1: "fst (checkServerWithRetry cfg_web ?env 1) = Inr True"
    using at2 [OF hyp] by (rule conjunct1)
  have r2: "logged_attempts (snd (snd (checkServerWithRetry cfg_web ?env 1))) = [1..2 - 1]"
    using at2 [OF hyp] by (elim conjE)
  have r3: "checkServerWithRetry cfg_web ?env' 1 = checkServerWithRetry cfg_web ?env 1"
    using same by (rule at2 [OF hyp, THEN conjunct2, THEN conjunct2, THEN spec, THEN mp])
  have fails: "\<forall>i. 1 \<le> i \<and> num_le i (parseInt (ATTEMPTS_PER_CYCLE cfg_web)) \<longrightarrow>
      \<not> attempt_succeeds cfg_web attempt_down"
    using down by simp
  have r4: "fst (checkServerWithRetry cfg_web (\<lambda>i. attempt_down) 0) = Inr False"
    using none [unfolded first_success_ends_cycle_def, THEN conjunct2, THEN conjunct1] fails
    by (rule iffD2)
  have r5: "logged_attempts (snd (snd (checkServerWithRetry cfg_web (\<lambda>i. attempt_down) 0))) = [1, 2, 3]"
    using none [unfolded first_success_ends_cycle_def, THEN conjunct2, THEN conjunct2] r4 xs
    by simp
  have i5: "logged_attempts (snd (snd (checkServerWithRetry_index cfg_web (\<lambda>i. attempt_down) 0))) =
      [1, 2, 3]"
    using nonei [unfolded first_success_ends_cycle_def, THEN conjunct2, THEN conjunct2] i4 xs
    by simp
  have "[1..2 - 1] = [1::int]"
    by (simp add: upto_rec1)
  with r2 have r2': "logged_attempts (snd (snd (checkServerWithRetry cfg_web ?env 1))) = [1]"
    by simp
  show ?thesis
    using up down r1 r2' r3 r4 r5 ex unrep downi i4 i5 by (intro conjI)
qed

text \<open>
  C5, as the specification states it, fails: there an attempt succeeds fully when its
  liveness exchange (connect, authenticate, command) succeeds. In a cycle of three attempts whose exchanges all succeed and whose
  heartbeat POSTs are all rejected, the exchange of attempt 1 succeeds, attempts 2 and 3
  run all the same, and the cycle fails although no liveness exchange has failed. Both
  files.
\<close>

theorem exchange_success_does_not_end_cycle_counterexample:
  "exchange_succeeds cfg_web attempt_unreported
   \<and> fst (checkServerWithRetry cfg_web (\<lambda>i. attempt_unreported) 0) = Inr False
   \<and> logged_attempts (snd (snd (checkServerWithRetry cfg_web (\<lambda>i. attempt_unreported) 0))) =
       [1, 2, 3]
   \<and> exchange_succeeds_index attempt_unreported
   \<and> fst (checkServerWithRetry_index cfg_classic (\<lambda>i. attempt_unreported) 0) = Inr False
   \<and> logged_attempts (snd (snd (checkServerWithRetry_index cfg_classic (\<lambda>i. attempt_unreported) 0))) =
       [1, 2, 3]"
proof -
  have "exchange_succeeds cfg_web attempt_unreported"
    by (simp add: exchange_succeeds_def sample_defs run_defs)
  moreover have "exchange_succeeds_index attempt_unreported"
    by (simp add: exchange_succeeds_index_def sample_defs)
  ultimately show ?thesis
    by (simp add: web_unreported_cycle index_unreported_cycle logged_attempts_def
        logged_errors_Cons)
qed

text \<open>
  C6, as the code has it. Every attempt of a cycle that is reached, fails and is not the
  last configured one is followed by one wait, directly after the line of its failure, of
  that attempt's own sample of \<^verbatim>\<open>Math.random()\<close> times the configured maximum; the cycle
  has no other wait, so none follows the last configured attempt and none follows an
  attempt that succeeds. With a positive maximum and samples in \<open>[0, 1)\<close> every wait lies
  in \<open>[0, jitterMax)\<close>; with a maximum of 0 every wait is 0. Both files.
\<close>

theorem jitter_after_non_final_failures:
  "jitter_between_attempts cfg (attempt_succeeds cfg) env
     (snd (snd (checkServerWithRetry cfg env consecutiveFailures)))
   \<and> jitter_range cfg env (snd (snd (checkServerWithRetry cfg env consecutiveFailures)))
   \<and> jitter_between_attempts cfg (attempt_succeeds_index cfg) env
       (snd (snd (checkServerWithRetry_index cfg env consecutiveFailures)))
   \<and> jitter_range cfg env (snd (snd (checkServerWithRetry_index cfg env consecutiveFailures)))"
proof -
  have "attempt_succeeds cfg = completes (try_block cfg (toLowerCase (RCON_TRANSPORT cfg)))"
    by (rule ext) (simp add: attempt_succeeds_def)
  moreover have "attempt_succeeds_index cfg = completes (try_block_index cfg)"
    by (rule ext) (simp add: attempt_succeeds_index_def)
  ultimately show ?thesis
    using cycle_form_jitter [OF try_block_regular] cycle_form_jitter [OF try_block_index_regular]
      cycle_form_jitter_range [OF try_block_regular]
      cycle_form_jitter_range [OF try_block_index_regular]
    by (simp add: checkServerWithRetry_closed checkServerWithRetry_index_closed)
qed

theorem jitter_after_non_final_failures_witness:
  "parseInt (JITTER_MS cfg_web) = Some 300
   \<and> \<not> attempt_succeeds cfg_web attempt_down \<and> attempt_succeeds cfg_web attempt_up
   \<and> (2, Some 150) \<in> set (jitter_waits (snd (snd (checkServerWithRetry cfg_web (\<lambda>i. attempt_down) 0))))
   \<and> jitter_waits (snd (snd (checkServerWithRetry cfg_web (\<lambda>i. attempt_down) 0))) =
       [(1, Some 150), (2, Some 150)]
   \<and> sleeps (snd (snd (checkServerWithRetry cfg_web (\<lambda>i. attempt_down) 0))) = [Some 150, Some 150]
   \<and> jitter_waits (snd (snd (checkServerWithRetry cfg_web
         (\<lambda>i. if i = 2 then attempt_up else attempt_down) 0))) = [(1, Some 150)]
   \<and> 0 \<le> (150::real) \<and> (150::real) < real_of_int 300
   \<and> \<not> attempt_succeeds_index cfg_web attempt_down
   \<and> (2, Some 150) \<in> set (jitter_waits (snd (snd (checkServerWithRetry_index cfg_web (\<lambda>i. attempt_down) 0))))
   \<and> jitter_waits (snd (snd (checkServerWithRetry_index cfg_web (\<lambda>i. attempt_down) 0))) =
       [(1, Some 150), (2, Some 150)]
   \<and> sleeps (snd (snd (checkServerWithRetry_index cfg_web (\<lambda>i. attempt_down) 0))) =
       [Some 150, Some 150]
   \<and> parseInt (JITTER_MS cfg_no_jitter) = Some 0
   \<and> sleeps (snd (snd (checkServerWithRetry cfg_no_jitter (\<lambda>i. attempt_down) 0))) =
       [Some 0, Some 0]"
proof -
  let ?env = "\<lambda>i::int. if i = 2 then attempt_up else attempt_down"
  let ?trz = "snd (snd (checkServerWithRetry cfg_no_jitter (\<lambda>i. attempt_down) 0))"
  have jz: "parseInt (JITTER_MS cfg_no_jitter) = Some 0"
    by (simp add: cfg_no_jitter_def sample_defs parseInt_zero)
  have downz: "\<not> attempt_succeeds cfg_no_jitter attempt_down"
    by (simp add: attempt_succeeds_def completes_def cfg_no_jitter_def sample_defs run_defs)
  have xsz: "attempts_from cfg_no_jitter 1 = [1, 2, 3]"
    by (simp add: attempts_from_def cfg_no_jitter_def sample_defs parseInt_samples upto_rec1)
  have ltz: "\<And>i. num_lt i (parseInt (ATTEMPTS_PER_CYCLE cfg_no_jitter)) \<longleftrightarrow> i < 3"
    by (simp add: cfg_no_jitter_def sample_defs parseInt_samples num_lt_def)
  note instz = jitter_after_non_final_failures [of cfg_no_jitter "\<lambda>i. attempt_down" 0]
  have webz: "jitter_between_attempts cfg_no_jitter (attempt_succeeds cfg_no_jitter)
      (\<lambda>i. attempt_down) ?trz"
    by (rule instz [THEN conjunct1])
  have rngz: "jitter_range cfg_no_jitter (\<lambda>i. attempt_down) ?trz"
    by (rule instz [THEN conjunct2, THEN conjunct1])
  have wz: "jitter_waits ?trz =
      [(1, jitter cfg_no_jitter attempt_down), (2, jitter cfg_no_jitter attempt_down)]"
    using webz [unfolded jitter_between_attempts_def, THEN conjunct2, THEN conjunct2, THEN conjunct1]
    by (simp add: xsz ltz downz)
  have sz: "sleeps ?trz = map snd (jitter_waits ?trz)"
    by (rule webz [unfolded jitter_between_attempts_def, THEN conjunct2, THEN conjunct2,
          THEN conjunct2, THEN conjunct1])
  have "\<forall>w \<in> set (sleeps ?trz). w = Some 0"
    using jz by (rule rngz [unfolded jitter_range_def, THEN conjunct2, THEN mp])
  then have zero: "sleeps ?trz = [Some 0, Some 0]"
    by (simp add: sz wz)
  let ?tr = "snd (snd (checkServerWithRetry cfg_web (\<lambda>i. attempt_down) 0))"
  let ?tr2 = "snd (snd (checkServerWithRetry cfg_web ?env 0))"
  let ?tri = "snd (snd (checkServerWithRetry_index cfg_web (\<lambda>i. attempt_down) 0))"
  have j: "parseInt (JITTER_MS cfg_web) = Some 300"
    by (simp add: sample_defs parseInt_samples)
  have up: "attempt_succeeds cfg_web attempt_up"
    by (simp add: attempt_succeeds_def completes_def sample_defs run_defs)
  have down: "\<not> attempt_succeeds cfg_web attempt_down"
    by (simp add: attempt_succeeds_def completes_def sample_defs run_defs)
  have downi: "\<not> attempt_succeeds_index cfg_web attempt_down"
    by (simp add: attempt_succeeds_index_def completes_def sample_defs try_block_index_def)
  have xs: "attempts_from cfg_web 1 = [1, 2, 3]"
    by (simp add: attempts_from_def sample_defs parseInt_samples upto_rec1)
  have lt: "\<And>i. num_lt i (parseInt (ATTEMPTS_PER_CYCLE cfg_web)) \<longleftrightarrow> i < 3"
    by (simp add: sample_defs parseInt_samples num_lt_def)
  have jt: "\<And>e. random e = 1 / 2 \<Longrightarrow> jitter cfg_web e = Some 150"
    by (simp add: jitter_def sample_defs parseInt_samples)
  have jd: "jitter cfg_web attempt_down = Some 150"
    by (rule jt) (simp add: sample_defs)
  note inst = jitter_after_non_final_failures [of cfg_web "\<lambda>i. attempt_down" 0]
  note inst2 = jitter_after_non_final_failures [of cfg_web ?env 0]
  have web: "jitter_between_attempts cfg_web (attempt_succeeds cfg_web) (\<lambda>i. attempt_down) ?tr"
    by (rule inst [THEN conjunct1])
  have web2: "jitter_between_attempts cfg_web (attempt_succeeds cfg_web) ?env ?tr2"
    by (rule inst2 [THEN conjunct1])
  have rng: "jitter_range cfg_web (\<lambda>i. attempt_down) ?tr"
    by (rule inst [THEN conjunct2, THEN conjunct1])
  have idx: "jitter_between_attempts cfg_web (attempt_succeeds_index cfg_web) (\<lambda>i. attempt_down) ?tri"
    by (rule inst [THEN conjunct2, THEN conjunct2, THEN conjunct1])
  have hyp: "1 \<le> (2::int) \<and> num_lt 2 (parseInt (ATTEMPTS_PER_CYCLE cfg_web))
      \<and> (\<forall>j. 1 \<le> j \<and> j \<le> 2 \<longrightarrow> \<not> attempt_succeeds cfg_web attempt_down)"
    using down by (simp add: lt)
  have hypi: "1 \<le> (2::int) \<and> num_lt 2 (parseInt (ATTEMPTS_PER_CYCLE cfg_web))
      \<and> (\<forall>j. 1 \<le> j \<and> j \<le> 2 \<longrightarrow> \<not> attempt_succeeds_index cfg_web attempt_down)"
    using downi by (simp add: lt)
  have m: "(2, jitter cfg_web attempt_down) \<in> set (jitter_waits ?tr)"
    using hyp
    by (rule web [unfolded jitter_between_attempts_def, THEN conjunct1, THEN spec, THEN mp])
  have mi: "(2, jitter cfg_web attempt_down) \<in> set (jitter_waits ?tri)"
    using hypi
    by (rule idx [unfolded jitter_between_attempts_def, THEN conjunct1, THEN spec, THEN mp])
  have w: "jitter_waits ?tr = [(1, Some 150), (2, Some 150)]"
    using web [unfolded jitter_between_attempts_def, THEN conjunct2, THEN conjunct2, THEN conjunct1]
    by (simp add: xs lt down jd)
  have s: "sleeps ?tr = map snd (jitter_waits ?tr)"
    by (rule web [unfolded jitter_between_attempts_def, THEN conjunct2, THEN conjunct2,
          THEN conjunct2, THEN conjunct1])
  have w2: "jitter_waits ?tr2 = [(1, Some 150)]"
    using web2 [unfolded jitter_between_attempts_def, THEN conjunct2, THEN conjunct2, THEN conjunct1]
    by (simp add: xs lt down up jd)
  have wi: "jitter_waits ?tri = [(1, Some 150), (2, Some 150)]"
    using idx [unfolded jitter_between_attempts_def, THEN conjunct2, THEN conjunct2, THEN conjunct1]
    by (simp add: xs lt downi jd)
  have si: "sleeps ?tri = map snd (jitter_waits ?tri)"
    by (rule idx [unfolded jitter_between_attempts_def, THEN conjunct2, THEN conjunct2,
          THEN conjunct2, THEN conjunct1])
  have samples: "\<forall>i::int. 0 \<le> random attempt_down \<and> random attempt_down < 1"
    by (simp add: sample_defs)
  have "\<forall>w \<in> set (sleeps ?tr). \<exists>d. w = Some d \<and> 0 \<le> d \<and> d < real_of_int 300"
    using j samples
    by (intro rng [unfolded jitter_range_def, THEN conjunct1, THEN spec, THEN mp]) simp
  then have r: "0 \<le> (150::real) \<and> (150::real) < real_of_int 300"
    by (simp add: s w)
  show ?thesis
    using j up down downi m mi w w2 wi r jz zero by (simp add: s si jd)
qed

text \<open>
  C6, as the specification states it, fails for a maximum of 0, which the code accepts: with \<^verbatim>\<open>JITTER_MS=0\<close>
  the cycle still waits after each failed attempt but the last, for 0 milliseconds, and 0
  is not in the half-open interval \<open>[0, 0)\<close>, which is empty.
\<close>

theorem zero_jitter_outside_interval_counterexample:
  "parseInt (JITTER_MS cfg_no_jitter) = Some 0
   \<and> 0 \<le> random attempt_down \<and> random attempt_down < 1
   \<and> jitter_waits (snd (snd (checkServerWithRetry cfg_no_jitter (\<lambda>i. attempt_down) 0))) =
       [(1, Some 0), (2, Some 0)]
   \<and> \<not> (0 \<le> (0::real) \<and> (0::real) < real_of_int 0)"
  by (simp add: web_no_jitter_cycle) (simp add: cfg_no_jitter_def sample_defs parseInt_zero)

text \<open>
  C9 does not hold of the dual-transport file. The cycle driver does catch every error
  that the \<^verbatim>\<open>try\<close> block of an attempt throws, and returns a boolean. But a WebRCON
  attempt whose timer of line 67 expires while the socket is still \<^verbatim>\<open>CONNECTING\<close> is
  rejected with \<^verbatim>\<open>WebRCON timeout\<close> after \<^verbatim>\<open>cleanup()\<close> has removed the \<^verbatim>\<open>'error'\<close>
  listener of the socket without closing it. When the socket then gives up its handshake
  and emits \<^verbatim>\<open>'error'\<close>, no listener is left: the error is thrown from the event loop as
  an uncaught exception, outside the \<^verbatim>\<open>try\<close> block of the attempt, and ends the process
  whose cycle has counted the attempt as an ordinary failure.
\<close>

theorem abandoned_socket_error_is_uncaught:
  "fst (checkServerWebRCON cfg_web web_hung) = Inl (new_Error ''WebRCON timeout'')
   \<and> ws_handled cfg_web (now web_hung) ws_initial (events web_hung) = [EvTimeout]
   \<and> readyState [EvTimeout] = CONNECTING
   \<and> settling_cleanup cfg_web web_hung = \<lparr>listeners_removed = True, close_called = False\<rparr>
   \<and> uncaught_exception cfg_web web_hung = Some handshake_timeout
   \<and> attempt_uncaught cfg_web attempt_hung = Some handshake_timeout
   \<and> fst (checkServerWithRetry cfg_web (\<lambda>i. attempt_hung) 0) = Inr False
   \<and> logged_errors (snd (snd (checkServerWithRetry cfg_web (\<lambda>i. attempt_hung) 0))) =
       [(1, new_Error ''WebRCON timeout''), (2, new_Error ''WebRCON timeout''),
        (3, new_Error ''WebRCON timeout'')]"
proof -
  have h: "ws_handled cfg_web (now web_hung) ws_initial (events web_hung) = [EvTimeout]"
    by (simp add: web_hung_def ws_initial_def on_event_def settle_def)
  have r: "readyState [EvTimeout] = CONNECTING"
    by (simp add: readyState_def)
  have c: "settling_cleanup cfg_web web_hung = \<lparr>listeners_removed = True, close_called = False\<rparr>"
    unfolding settling_cleanup_def h r by (simp add: web_hung_def cleanup_def)
  have u: "uncaught_exception cfg_web web_hung = Some handshake_timeout"
    unfolding uncaught_exception_def c h by (simp add: web_hung_def)
  have a: "attempt_uncaught cfg_web attempt_hung = Some handshake_timeout"
    unfolding attempt_uncaught_def using u
    by (simp add: attempt_hung_def sample_defs toLowerCase_samples)
  have w: "fst (checkServerWebRCON cfg_web web_hung) = Inl (new_Error ''WebRCON timeout'')"
    by (simp add: web_hung_def sample_defs run_defs)
  show ?thesis
    using w h r c u a by (simp add: web_hung_cycle logged_errors_Cons)
qed

text \<open>
  C1, as the code has it. A transport setting whose lower-cased value is neither
  \<^verbatim>\<open>classic\<close> nor \<^verbatim>\<open>web\<close> is not rejected at startup: every configured attempt of
  every cycle throws the unknown-transport error inside its \<^verbatim>\<open>try\<close> block, before any
  check function is called. The error is caught and printed as the failure of that attempt
  like any other error, with the jitter wait after every attempt but the last; no liveness
  exchange is started and no heartbeat is posted; the cycle returns \<^verbatim>\<open>false\<close> and the
  counter goes up by one.
\<close>

theorem unknown_transport_fails_every_attempt:
  assumes "toLowerCase (RCON_TRANSPORT cfg) \<noteq> ''classic''"
    and "toLowerCase (RCON_TRANSPORT cfg) \<noteq> ''web''"
  shows "checkServerWithRetry cfg env consecutiveFailures =
           (Inr False, consecutiveFailures + 1,
            concat (map (\<lambda>i. catch_block cfg (env i) i
                      (new_Error (''Unknown RCON_TRANSPORT: '' @ RCON_TRANSPORT cfg)))
                    (attempts_from cfg 1)) @
            [classify cfg (consecutiveFailures + 1)])
       \<and> logged_errors (snd (snd (checkServerWithRetry cfg env consecutiveFailures))) =
           map (\<lambda>i. (i, new_Error (''Unknown RCON_TRANSPORT: '' @ RCON_TRANSPORT cfg)))
             (attempts_from cfg 1)
       \<and> (\<forall>x \<in> set (snd (snd (checkServerWithRetry cfg env consecutiveFailures))).
             \<not> probe_event x \<and> x \<noteq> HttpPost)"
proof -
  note eq = unknown_transport_cycle [OF assms, of env consecutiveFailures]
  have "logged_errors (snd (snd (checkServerWithRetry cfg env consecutiveFailures))) =
           map (\<lambda>i. (i, new_Error (''Unknown RCON_TRANSPORT: '' @ RCON_TRANSPORT cfg)))
             (attempts_from cfg 1)"
    by (simp add: eq logged_errors_catch_blocks)
  moreover have "\<forall>x \<in> set (snd (snd (checkServerWithRetry cfg env consecutiveFailures))).
             \<not> probe_event x \<and> x \<noteq> HttpPost"
    using catch_block_not_probe classify_not_probe by (auto simp: eq)
  ultimately show ?thesis
    using eq by simp
qed

theorem unknown_transport_fails_every_attempt_witness:
  "toLowerCase (RCON_TRANSPORT cfg_udp) \<noteq> ''classic''
   \<and> toLowerCase (RCON_TRANSPORT cfg_udp) \<noteq> ''web''
   \<and> fst (checkServerWithRetry cfg_udp (\<lambda>i. attempt_up) 0) = Inr False
   \<and> fst (snd (checkServerWithRetry cfg_udp (\<lambda>i. attempt_up) 0)) = 1
   \<and> logged_errors (snd (snd (checkServerWithRetry cfg_udp (\<lambda>i. attempt_up) 0))) =
       [(1, new_Error ''Unknown RCON_TRANSPORT: udp''),
        (2, new_Error ''Unknown RCON_TRANSPORT: udp''),
        (3, new_Error ''Unknown RCON_TRANSPORT: udp'')]"
proof -
  have a: "toLowerCase (RCON_TRANSPORT cfg_udp) \<noteq> ''classic''"
    and b: "toLowerCase (RCON_TRANSPORT cfg_udp) \<noteq> ''web''"
    by (simp_all add: sample_defs toLowerCase_samples)
  have xs: "attempts_from cfg_udp 1 = [1, 2, 3]"
    by (simp add: attempts_from_def sample_defs parseInt_samples upto_rec1)
  have nm: "RCON_TRANSPORT cfg_udp = ''udp''"
    by (simp add: sample_defs)
  note inst = unknown_transport_fails_every_attempt [OF a b, of "\<lambda>i. attempt_up" 0]
  have r: "fst (checkServerWithRetry cfg_udp (\<lambda>i. attempt_up) 0) = Inr False"
    "fst (snd (checkServerWithRetry cfg_udp (\<lambda>i. attempt_up) 0)) = 1"
    using inst [THEN conjunct1] by simp_all
  have l: "logged_errors (snd (snd (checkServerWithRetry cfg_udp (\<lambda>i. attempt_up) 0))) =
       [(1, new_Error ''Unknown RCON_TRANSPORT: udp''),
        (2, new_Error ''Unknown RCON_TRANSPORT: udp''),
        (3, new_Error ''Unknown RCON_TRANSPORT: udp'')]"
    using inst [THEN conjunct2, THEN conjunct1] unfolding xs nm by simp
  show ?thesis
    using a b r l by (intro conjI)
qed

text \<open>
  C1, as the specification states it, fails: with the transport \<^verbatim>\<open>udp\<close> and three
  attempts, the loop is entered, the error is printed as the failure of attempts 1, 2 and 3
  with the jitter waits between them, and the cycle ends like an outage, with a warning.
\<close>

theorem unknown_transport_is_retried_counterexample:
  "checkServerWithRetry cfg_udp (\<lambda>i. attempt_up) 0 =
     (Inr False, 1,
      [LogAttempt 1 (new_Error ''Unknown RCON_TRANSPORT: udp''), Sleep (Some 150),
       LogAttempt 2 (new_Error ''Unknown RCON_TRANSPORT: udp''), Sleep (Some 150),
       LogAttempt 3 (new_Error ''Unknown RCON_TRANSPORT: udp''), LogWarn 1])"
  by (simp add: sample_defs run_defs)

text \<open>
  C2, as the code has it. When the liveness exchange of an attempt succeeds and the
  heartbeat POST of that attempt fails, the POST's error is thrown inside the same
  \<^verbatim>\<open>try\<close> block: it is caught and printed as the failure of that attempt, and the attempt
  is retried after the jitter wait when attempts remain. The counter was reset to 0 before
  the POST, so the cycle leaves it at 0 when a later attempt completes, and at 1 when none
  does and the cycle fails. The heartbeat is posted once in every attempt whose liveness
  exchange succeeded, so a cycle, also one that succeeds, can post it several times; only
  the last POST of a successful cycle succeeds.
\<close>

theorem heartbeat_failure_is_an_attempt_failure:
  assumes "1 \<le> i" and "num_le i (parseInt (ATTEMPTS_PER_CYCLE cfg))"
    and "\<forall>j. 1 \<le> j \<and> j < i \<longrightarrow> \<not> attempt_succeeds cfg (env j)"
    and "exchange_succeeds cfg (env i)" and "post_result (env i) = Some err"
  shows "(i, err) \<in> set (logged_errors (snd (snd (checkServerWithRetry cfg env consecutiveFailures))))
       \<and> (num_lt i (parseInt (ATTEMPTS_PER_CYCLE cfg)) \<longrightarrow>
            (i, jitter cfg (env i)) \<in>
              set (jitter_waits (snd (snd (checkServerWithRetry cfg env consecutiveFailures)))))
       \<and> (fst (checkServerWithRetry cfg env consecutiveFailures) = Inr True \<longrightarrow>
            fst (snd (checkServerWithRetry cfg env consecutiveFailures)) = 0)
       \<and> (fst (checkServerWithRetry cfg env consecutiveFailures) = Inr False \<longrightarrow>
            fst (snd (checkServerWithRetry cfg env consecutiveFailures)) = 1)
       \<and> posts (snd (snd (checkServerWithRetry cfg env consecutiveFailures))) =
            length (filter (\<lambda>n. exchange_succeeds cfg (env n))
              (logged_attempts (snd (snd (checkServerWithRetry cfg env consecutiveFailures)))))
            + (if fst (checkServerWithRetry cfg env consecutiveFailures) = Inr True then 1 else 0)"
proof -
  let ?body = "try_block cfg (toLowerCase (RCON_TRANSPORT cfg))"
  let ?r = "cycle_form ?body cfg env consecutiveFailures"
  have throws: "fst (?body (env i) 0) = Inl err"
    using assms(4,5)
    by (auto simp: try_block_def exchange_succeeds_def split: prod.splits sum.splits)
  have before: "\<forall>j. 1 \<le> j \<and> j < i \<longrightarrow> \<not> completes ?body (env j)"
    using assms(3) by (simp add: attempt_succeeds_def)
  have logged: "(i, err) \<in> set (logged_errors (snd (snd ?r)))"
    using try_block_regular assms(1,2) before throws by (rule cycle_form_logs_error)
  then have "i \<in> set (logged_attempts (snd (snd ?r)))"
    by (force simp: logged_attempts_def)
  moreover have "jitter_waits (snd (snd ?r)) =
         map (\<lambda>i. (i, jitter cfg (env i)))
           (filter (\<lambda>i. num_lt i (parseInt (ATTEMPTS_PER_CYCLE cfg)))
             (logged_attempts (snd (snd ?r))))"
    by (rule cycle_form_waits [OF try_block_regular])
  ultimately have wait: "num_lt i (parseInt (ATTEMPTS_PER_CYCLE cfg)) \<longrightarrow>
      (i, jitter cfg (env i)) \<in> set (jitter_waits (snd (snd ?r)))"
    by auto
  have "i \<in> set (attempts_from cfg 1)"
    using assms(1,2) by (simp add: set_attempts_from)
  then have "list_ex (\<lambda>n. resets ?body (env n)) (attempts_from cfg 1)"
    using assms(4) by (auto simp: list_ex_iff resets_try_block)
  then have counter: "fst (snd ?r) = (if fst ?r = Inr True then 0 else 1)"
    by (simp add: cycle_form_counter [OF try_block_regular] cycle_form_returns)
  have "posts (snd (snd ?r)) =
      length (filter (\<lambda>n. resets ?body (env n)) (logged_attempts (snd (snd ?r))))
      + (if fst ?r = Inr True then 1 else 0)"
    by (rule cycle_form_posts [OF try_block_regular try_block_posts_once])
  then have p: "posts (snd (snd ?r)) =
      length (filter (\<lambda>n. exchange_succeeds cfg (env n)) (logged_attempts (snd (snd ?r))))
      + (if fst ?r = Inr True then 1 else 0)"
    by (simp add: resets_try_block)
  show ?thesis
    unfolding checkServerWithRetry_closed
    using logged wait counter p by simp
qed

theorem heartbeat_failure_is_an_attempt_failure_witness:
  "exchange_succeeds cfg_web attempt_unreported
   \<and> post_result attempt_unreported = Some bad_response
   \<and> (1, bad_response) \<in>
       set (logged_errors (snd (snd (checkServerWithRetry cfg_web (\<lambda>i. attempt_unreported) 0))))
   \<and> (1, Some 150) \<in>
       set (jitter_waits (snd (snd (checkServerWithRetry cfg_web (\<lambda>i. attempt_unreported) 0))))
   \<and> fst (checkServerWithRetry cfg_web (\<lambda>i. attempt_unreported) 0) = Inr False
   \<and> fst (snd (checkServerWithRetry cfg_web (\<lambda>i. attempt_unreported) 0)) = 1
   \<and> posts (snd (snd (checkServerWithRetry cfg_web (\<lambda>i. attempt_unreported) 0))) = 3"
proof -
  have ex: "exchange_succeeds cfg_web attempt_unreported"
    by (simp add: exchange_succeeds_def sample_defs run_defs)
  have po: "post_result attempt_unreported = Some bad_response"
    by (simp add: sample_defs)
  have k: "num_le 1 (parseInt (ATTEMPTS_PER_CYCLE cfg_web))"
    and lt: "num_lt 1 (parseInt (ATTEMPTS_PER_CYCLE cfg_web))"
    by (simp_all add: sample_defs num_le_def num_lt_def parseInt_samples)
  have jt: "jitter cfg_web attempt_unreported = Some 150"
    by (simp add: jitter_def sample_defs parseInt_samples)
  have before: "\<forall>j::int. 1 \<le> j \<and> j < 1 \<longrightarrow> \<not> attempt_succeeds cfg_web attempt_unreported"
  proof (intro allI impI)
    fix j :: int
    assume "1 \<le> j \<and> j < 1"
    then have False by linarith
    then show "\<not> attempt_succeeds cfg_web attempt_unreported" ..
  qed
  have one: "(1::int) \<le> 1"
    by simp
  note inst = heartbeat_failure_is_an_attempt_failure
    [of 1 cfg_web "\<lambda>i. attempt_unreported" bad_response 0, OF one k before ex po]
  have f: "fst (checkServerWithRetry cfg_web (\<lambda>i. attempt_unreported) 0) = Inr False"
    by (simp add: web_unreported_cycle)
  have l: "(1, bad_response) \<in>
       set (logged_errors (snd (snd (checkServerWithRetry cfg_web (\<lambda>i. attempt_unreported) 0))))"
    using inst by (rule conjunct1)
  have w: "(1, Some 150) \<in>
       set (jitter_waits (snd (snd (checkServerWithRetry cfg_web (\<lambda>i. attempt_unreported) 0))))"
    using inst [THEN conjunct2, THEN conjunct1] lt jt by simp
  have c: "fst (snd (checkServerWithRetry cfg_web (\<lambda>i. attempt_unreported) 0)) = 1"
    using inst [THEN conjunct2, THEN conjunct2, THEN conjunct2, THEN conjunct1] f by (rule mp)
  have p: "posts (snd (snd (checkServerWithRetry cfg_web (\<lambda>i. attempt_unreported) 0))) = 3"
    by (simp add: web_unreported_cycle posts_def)
  show ?thesis
    using ex po l w f c p by (intro conjI)
qed

text \<open>
  C2, as the specification states it, fails. With three attempts whose liveness exchange
  succeeds and whose heartbeat POST fails, the POST's error is printed as the failure of
  attempts 1, 2 and 3, the exchange is retried each time, the cycle fails and the counter
  goes from 0 to 1; and a cycle that succeeds at its second attempt has posted the heartbeat
  twice.
\<close>

theorem heartbeat_failure_counted_counterexample:
  "checkServerWithRetry cfg_web (\<lambda>i. attempt_unreported) 0 =
     (Inr False, 1,
      [WsConnect, WsSend (RconMessage 1 ''secret'' ''monitor'' ''auth''),
       WsSend (RconMessage 1700000000000 ''status'' ''monitor'' ''command''),
       LogUpWeb ''hostname: X'', HttpPost, LogAttempt 1 bad_response, Sleep (Some 150),
       WsConnect, WsSend (RconMessage 1 ''secret'' ''monitor'' ''auth''),
       WsSend (RconMessage 1700000000000 ''status'' ''monitor'' ''command''),
       LogUpWeb ''hostname: X'', HttpPost, LogAttempt 2 bad_response, Sleep (Some 150),
       WsConnect, WsSend (RconMessage 1 ''secret'' ''monitor'' ''auth''),
       WsSend (RconMessage 1700000000000 ''status'' ''monitor'' ''command''),
       LogUpWeb ''hostname: X'', HttpPost, LogAttempt 3 bad_response, LogWarn 1])
   \<and> fst (checkServerWithRetry cfg_web (\<lambda>i. if i = 1 then attempt_unreported else attempt_up) 0) =
       Inr True
   \<and> posts (snd (snd (checkServerWithRetry cfg_web
         (\<lambda>i. if i = 1 then attempt_unreported else attempt_up) 0))) = 2"
  by (simp add: web_unreported_cycle web_reported_late_cycle posts_def)

text \<open>
  C3, as the code has it. The counter is never negative. A cycle that returns \<^verbatim>\<open>true\<close>
  leaves it at 0. A cycle that returns \<^verbatim>\<open>false\<close> and in which no liveness exchange
  succeeded increments it by exactly 1, so after \<open>N\<close> such cycles in a row it has grown by
  \<open>N\<close>. A cycle that returns \<^verbatim>\<open>false\<close> although the liveness exchange of some attempt
  succeeded (the heartbeat POST failed) leaves it at exactly 1, whatever it was before.
  Both files.
\<close>

theorem counter_counts_outage_cycles:
  assumes "0 \<le> consecutiveFailures"
  shows "counter_rule cfg (exchange_succeeds cfg) env consecutiveFailures
           (checkServerWithRetry cfg env consecutiveFailures)
       \<and> counter_rule cfg exchange_succeeds_index env consecutiveFailures
           (checkServerWithRetry_index cfg env consecutiveFailures)
       \<and> ((\<forall>e \<in> set envs. \<not> list_ex (\<lambda>i. exchange_succeeds cfg (e i)) (attempts_from cfg 1)) \<longrightarrow>
            fst (loop cfg envs consecutiveFailures) = consecutiveFailures + int (length envs))
       \<and> ((\<forall>e \<in> set envs. \<not> list_ex (\<lambda>i. exchange_succeeds_index (e i)) (attempts_from cfg 1)) \<longrightarrow>
            fst (loop_index cfg envs consecutiveFailures) = consecutiveFailures + int (length envs))"
proof -
  have "resets (try_block cfg (toLowerCase (RCON_TRANSPORT cfg))) = exchange_succeeds cfg"
    by (rule ext) (rule resets_try_block)
  moreover have "resets (try_block_index cfg) = exchange_succeeds_index"
    by (rule ext) (rule resets_try_block_index)
  moreover have "counter_rule cfg (resets (try_block cfg (toLowerCase (RCON_TRANSPORT cfg)))) env
      consecutiveFailures
      (cycle_form (try_block cfg (toLowerCase (RCON_TRANSPORT cfg))) cfg env consecutiveFailures)"
    using try_block_regular assms by (rule cycle_form_counter_rule)
  moreover have "counter_rule cfg (resets (try_block_index cfg)) env consecutiveFailures
      (cycle_form (try_block_index cfg) cfg env consecutiveFailures)"
    using try_block_index_regular assms by (rule cycle_form_counter_rule)
  ultimately show ?thesis
    using loop_outages [where envs = envs and cfg = cfg and cf = consecutiveFailures]
      loop_index_outages [where envs = envs and cfg = cfg and cf = consecutiveFailures]
    by (simp add: checkServerWithRetry_closed checkServerWithRetry_index_closed)
qed

theorem counter_counts_outage_cycles_witness:
  "\<not> exchange_succeeds cfg_web attempt_down
   \<and> exchange_succeeds cfg_web attempt_unreported
   \<and> fst (checkServerWithRetry cfg_web (\<lambda>i. attempt_down) 1) = Inr False
   \<and> fst (snd (checkServerWithRetry cfg_web (\<lambda>i. attempt_down) 1)) = 2
   \<and> fst (checkServerWithRetry cfg_web (\<lambda>i. attempt_unreported) 2) = Inr False
   \<and> fst (snd (checkServerWithRetry cfg_web (\<lambda>i. attempt_unreported) 2)) = 1
   \<and> fst (loop cfg_web [\<lambda>i. attempt_down, \<lambda>i. attempt_down, \<lambda>i. attempt_down] 0) = 3"
proof -
  have down: "\<not> exchange_succeeds cfg_web attempt_down"
    by (simp add: exchange_succeeds_def sample_defs run_defs)
  have up: "exchange_succeeds cfg_web attempt_unreported"
    by (simp add: exchange_succeeds_def sample_defs run_defs)
  have xs: "attempts_from cfg_web 1 = [1, 2, 3]"
    by (simp add: attempts_from_def sample_defs parseInt_samples upto_rec1)
  have f1: "fst (checkServerWithRetry cfg_web (\<lambda>i. attempt_down) 1) = Inr False"
    by (simp add: web_down_again_cycle)
  have f2: "fst (checkServerWithRetry cfg_web (\<lambda>i. attempt_unreported) 2) = Inr False"
    by (simp add: web_unreported_cycle)
  have "counter_rule cfg_web (exchange_succeeds cfg_web) (\<lambda>i. attempt_down) 1
           (checkServerWithRetry cfg_web (\<lambda>i. attempt_down) 1)"
    using counter_counts_outage_cycles [where consecutiveFailures = 1 and cfg = cfg_web
        and env = "\<lambda>i. attempt_down" and envs = "[]"] by simp
  then have c1: "fst (snd (checkServerWithRetry cfg_web (\<lambda>i. attempt_down) 1)) = 2"
    using f1 down by (simp add: counter_rule_def xs split: prod.splits)
  have "counter_rule cfg_web (exchange_succeeds cfg_web) (\<lambda>i. attempt_unreported) 2
           (checkServerWithRetry cfg_web (\<lambda>i. attempt_unreported) 2)"
    using counter_counts_outage_cycles [where consecutiveFailures = 2 and cfg = cfg_web
        and env = "\<lambda>i. attempt_unreported" and envs = "[]"] by simp
  then have c2: "fst (snd (checkServerWithRetry cfg_web (\<lambda>i. attempt_unreported) 2)) = 1"
    using f2 up by (simp add: counter_rule_def xs split: prod.splits)
  have zero: "(0::int) \<le> 0"
    by simp
  have "\<forall>e \<in> set [\<lambda>i::int. attempt_down, \<lambda>i. attempt_down, \<lambda>i. attempt_down].
      \<not> list_ex (\<lambda>i. exchange_succeeds cfg_web (e i)) (attempts_from cfg_web 1)"
    using down by (simp add: xs)
  then have l: "fst (loop cfg_web [\<lambda>i. attempt_down, \<lambda>i. attempt_down, \<lambda>i. attempt_down] 0) =
      0 + int (length [\<lambda>i::int. attempt_down, \<lambda>i. attempt_down, \<lambda>i. attempt_down])"
    by (rule counter_counts_outage_cycles [OF zero, where cfg = cfg_web
          and env = "\<lambda>i. attempt_down"
          and envs = "[\<lambda>i. attempt_down, \<lambda>i. attempt_down, \<lambda>i. attempt_down]",
          THEN conjunct2, THEN conjunct2, THEN conjunct1, THEN mp])
  have l': "fst (loop cfg_web [\<lambda>i. attempt_down, \<lambda>i. attempt_down, \<lambda>i. attempt_down] 0) = 3"
    unfolding l by simp
  show ?thesis
    using down up f1 c1 f2 c2 l' by (intro conjI)
qed

text \<open>
  C3, as the specification states it, fails: a cycle whose three liveness exchanges succeed
  and whose three heartbeat POSTs fail is a failed cycle, but, started with the counter at
  1, it leaves the counter at 1, not at 2.
\<close>

theorem failed_cycle_without_increment_counterexample:
  "fst (checkServerWithRetry cfg_web (\<lambda>i. attempt_unreported) 1) = Inr False
   \<and> fst (snd (checkServerWithRetry cfg_web (\<lambda>i. attempt_unreported) 1)) = 1
   \<and> fst (checkServerWithRetry_index cfg_classic (\<lambda>i. attempt_unreported) 1) = Inr False
   \<and> fst (snd (checkServerWithRetry_index cfg_classic (\<lambda>i. attempt_unreported) 1)) = 1"
  by (simp add: web_unreported_cycle index_unreported_cycle)

text \<open>
  C10. The counter is reset to 0 as soon as the liveness exchange has succeeded, before the
  heartbeat is posted: a \<^verbatim>\<open>try\<close> block whose exchange succeeds and whose POST throws
  leaves the counter at 0 and its last effect is the POST. So a cycle with at least one
  attempt, in which every exchange succeeds and every POST throws, returns \<^verbatim>\<open>false\<close> with
  the counter at exactly 1, whatever the counter was before, and ends with the warning
  whenever the threshold is above 1.
\<close>

theorem reset_precedes_heartbeat:
  assumes "parseInt (ATTEMPTS_PER_CYCLE cfg) = Some k" and "1 \<le> k"
    and "\<forall>i. 1 \<le> i \<and> i \<le> k \<longrightarrow> exchange_succeeds cfg (env i) \<and> post_result (env i) \<noteq> None"
  shows "fst (checkServerWithRetry cfg env consecutiveFailures) = Inr False
       \<and> fst (snd (checkServerWithRetry cfg env consecutiveFailures)) = 1
       \<and> (\<forall>t. parseInt (CONSECUTIVE_FAILURES_THRESHOLD cfg) = Some t \<and> 1 < t \<longrightarrow>
            last (snd (snd (checkServerWithRetry cfg env consecutiveFailures))) = LogWarn 1)
       \<and> (\<forall>e c err. exchange_succeeds cfg e \<and> post_result e = Some err \<longrightarrow>
            try_block cfg (toLowerCase (RCON_TRANSPORT cfg)) e c =
              (Inl err, 0, snd (exchange cfg (toLowerCase (RCON_TRANSPORT cfg)) e) @ [HttpPost]))"
proof -
  let ?body = "try_block cfg (toLowerCase (RCON_TRANSPORT cfg))"
  let ?r = "cycle_form ?body cfg env consecutiveFailures"
  have tb: "?body e c = (Inl err, 0, snd (exchange cfg (toLowerCase (RCON_TRANSPORT cfg)) e) @ [HttpPost])"
    if "exchange_succeeds cfg e \<and> post_result e = Some err" for e c err
    using that by (auto simp: try_block_def exchange_succeeds_def split: prod.splits sum.splits)
  have xs: "attempts_from cfg 1 = [1..k]"
    by (simp add: attempts_from_def assms(1))
  have none: "\<not> list_ex (\<lambda>i. completes ?body (env i)) (attempts_from cfg 1)"
  proof -
    have "\<not> completes ?body (env i)" if bounds: "1 \<le> i" "i \<le> k" for i
    proof -
      obtain err where "exchange_succeeds cfg (env i) \<and> post_result (env i) = Some err"
        using assms(3) [rule_format, of i] bounds by auto
      then show ?thesis
        by (simp add: completes_def tb)
    qed
    then show ?thesis
      by (simp add: list_ex_iff xs)
  qed
  have some: "list_ex (\<lambda>i. resets ?body (env i)) (attempts_from cfg 1)"
    using assms(2,3) by (auto simp: list_ex_iff xs resets_try_block intro: bexI [of _ 1])
  have f: "fst ?r = Inr False"
    using none by (simp add: cycle_form_returns)
  have c: "fst (snd ?r) = 1"
    using none some by (simp add: cycle_form_counter [OF try_block_regular])
  have w: "last (snd (snd ?r)) = LogWarn 1"
    if "parseInt (CONSECUTIVE_FAILURES_THRESHOLD cfg) = Some t \<and> 1 < t" for t
    using cycle_form_failure_trace [OF f] c that by (simp add: classify_def num_ge_def)
  show ?thesis
    unfolding checkServerWithRetry_closed
    using f c w tb by blast
qed

theorem reset_precedes_heartbeat_witness:
  "parseInt (ATTEMPTS_PER_CYCLE cfg_web) = Some 3
   \<and> exchange_succeeds cfg_web attempt_unreported \<and> post_result attempt_unreported \<noteq> None
   \<and> fst (checkServerWithRetry cfg_web (\<lambda>i. attempt_unreported) 5) = Inr False
   \<and> fst (snd (checkServerWithRetry cfg_web (\<lambda>i. attempt_unreported) 5)) = 1
   \<and> last (snd (snd (checkServerWithRetry cfg_web (\<lambda>i. attempt_unreported) 5))) = LogWarn 1
   \<and> try_block cfg_web ''web'' attempt_unreported 5 =
       (Inl bad_response, 0,
        [WsConnect, WsSend (RconMessage 1 ''secret'' ''monitor'' ''auth''),
         WsSend (RconMessage 1700000000000 ''status'' ''monitor'' ''command''),
         LogUpWeb ''hostname: X'', HttpPost])"
proof -
  have k: "parseInt (ATTEMPTS_PER_CYCLE cfg_web) = Some 3"
    by (simp add: sample_defs parseInt_samples)
  have t: "parseInt (CONSECUTIVE_FAILURES_THRESHOLD cfg_web) = Some 2 \<and> (1::int) < 2"
    by (simp add: sample_defs parseInt_samples)
  have low: "toLowerCase (RCON_TRANSPORT cfg_web) = ''web''"
    by (simp add: sample_defs toLowerCase_samples)
  have ex: "exchange_succeeds cfg_web attempt_unreported"
    by (simp add: exchange_succeeds_def sample_defs run_defs)
  have po: "post_result attempt_unreported = Some bad_response"
    by (simp add: sample_defs)
  have out: "snd (exchange cfg_web ''web'' attempt_unreported) =
      [WsConnect, WsSend (RconMessage 1 ''secret'' ''monitor'' ''auth''),
       WsSend (RconMessage 1700000000000 ''status'' ''monitor'' ''command''),
       LogUpWeb ''hostname: X'']"
    by (simp add: sample_defs run_defs)
  have all: "\<forall>i::int. 1 \<le> i \<and> i \<le> 3 \<longrightarrow>
      exchange_succeeds cfg_web attempt_unreported \<and> post_result attempt_unreported \<noteq> None"
    using ex po by simp
  have three: "(1::int) \<le> 3"
    by simp
  note inst = reset_precedes_heartbeat [of cfg_web 3 "\<lambda>i. attempt_unreported" 5, OF k three all]
  have f: "fst (checkServerWithRetry cfg_web (\<lambda>i. attempt_unreported) 5) = Inr False"
    using inst by (rule conjunct1)
  have c: "fst (snd (checkServerWithRetry cfg_web (\<lambda>i. attempt_unreported) 5)) = 1"
    using inst [THEN conjunct2] by (rule conjunct1)
  have w: "last (snd (snd (checkServerWithRetry cfg_web (\<lambda>i. attempt_unreported) 5))) = LogWarn 1"
    using t by (rule inst [THEN conjunct2, THEN conjunct2, THEN conjunct1, THEN spec, THEN mp])
  have "exchange_succeeds cfg_web attempt_unreported \<and> post_result attempt_unreported = Some bad_response"
    using ex po by simp
  then have "try_block cfg_web (toLowerCase (RCON_TRANSPORT cfg_web)) attempt_unreported 5 =
      (Inl bad_response, 0,
       snd (exchange cfg_web (toLowerCase (RCON_TRANSPORT cfg_web)) attempt_unreported) @ [HttpPost])"
    by (rule inst [THEN conjunct2, THEN conjunct2, THEN conjunct2, rule_format])
  then have tb: "try_block cfg_web ''web'' attempt_unreported 5 =
       (Inl bad_response, 0,
        [WsConnect, WsSend (RconMessage 1 ''secret'' ''monitor'' ''auth''),
         WsSend (RconMessage 1700000000000 ''status'' ''monitor'' ''command''),
         LogUpWeb ''hostname: X'', HttpPost])"
    unfolding low out by simp
  have po': "post_result attempt_unreported \<noteq> None"
    using po by simp
  show ?thesis
    using k ex po' f c w tb by (intro conjI)
qed

text \<open>
  C7. In the WebRCON client, while the auth signal (a frame with \<^verbatim>\<open>Identifier\<close> -1) has not
  arrived, no received frame resolves the attempt or prints a response, and a well-formed
  frame with another \<^verbatim>\<open>Identifier\<close> changes nothing at all; so an attempt that resolves has
  received the auth signal. When the socket closes before the signal, after events that left
  the attempt pending, the attempt fails with the error
  \<^verbatim>\<open>WebRCON connection closed before auth\<close>, which is what the code has for an
  authentication rejection.
\<close>

theorem nothing_resolves_before_auth_signal:
  "(\<forall>(st::ws_state) fr b. \<not> authSuccess st \<and> outcome st = None \<longrightarrow>
       outcome (fst (on_message cfg t st fr)) \<noteq> Some (Inr b)
     \<and> response_previews (snd (on_message cfg t st fr)) = [])
   \<and> (\<forall>(st::ws_state) ident m. \<not> authSuccess st \<and> ident \<noteq> JNum (- 1) \<longrightarrow>
         on_message cfg t st (Msg ident m) = (st, []))
   \<and> (\<forall>b. fst (checkServerWebRCON cfg env) = Inr b \<longrightarrow>
         (\<exists>pre m rest. events env = pre @ EvMessage (Msg (JNum (- 1)) m) # rest))
   \<and> (\<forall>pre rest. constructor_error env = None \<and> events env = pre @ EvClose # rest
          \<and> (\<forall>e \<in> set pre. keeps_pending e) \<longrightarrow>
         fst (checkServerWebRCON cfg env) = Inl (new_Error ''WebRCON connection closed before auth''))"
proof (intro conjI allI impI)
  fix st :: ws_state and fr b
  assume "\<not> authSuccess st \<and> outcome st = None"
  then have a: "\<not> authSuccess st" and p: "outcome st = None"
    by simp_all
  show "outcome (fst (on_message cfg t st fr)) \<noteq> Some (Inr b)"
    using a p by (rule on_message_before_auth(1))
  show "response_previews (snd (on_message cfg t st fr)) = []"
    using a p by (rule on_message_before_auth(2))
next
  fix st :: ws_state and ident m
  assume "\<not> authSuccess st \<and> ident \<noteq> JNum (- 1)"
  then show "on_message cfg t st (Msg ident m) = (st, [])"
    by (simp add: on_message_def)
next
  fix b
  assume r: "fst (checkServerWebRCON cfg env) = Inr b"
  then have c: "constructor_error env = None"
    by (cases "constructor_error env") (simp_all add: checkServerWebRCON_def)
  then have "fst (ws_run cfg (now env) ws_initial (events env)) = Inr b"
    using r by (simp add: checkServerWebRCON_fst)
  then show "\<exists>pre m rest. events env = pre @ EvMessage (Msg (JNum (- 1)) m) # rest"
    by (rule ws_run_resolved_needs_signal) (simp_all add: ws_initial_def)
next
  fix pre rest
  assume h: "constructor_error env = None \<and> events env = pre @ EvClose # rest
          \<and> (\<forall>e \<in> set pre. keeps_pending e)"
  have init: "\<not> authSuccess ws_initial" "outcome ws_initial = None"
    by (simp_all add: ws_initial_def)
  have "fst (ws_run cfg (now env) ws_initial (pre @ EvClose # rest)) =
      fst (ws_run cfg (now env) ws_initial (EvClose # rest))"
    using ws_run_pending_prefix [OF init, of pre cfg "now env" "EvClose # rest"] h by simp
  also have "\<dots> = Inl (new_Error ''WebRCON connection closed before auth'')"
    by (simp add: ws_run_step [OF init(2)] on_event_def init(1) ws_run_settled settle_def
        del: ws_run.simps)
  finally show "fst (checkServerWebRCON cfg env) =
      Inl (new_Error ''WebRCON connection closed before auth'')"
    using h by (simp add: checkServerWebRCON_fst)
qed

theorem nothing_resolves_before_auth_signal_witness:
  "constructor_error web_closed_early = None
   \<and> events web_closed_early = [EvOpen, EvMessage (Msg (JNum 0) (JStr ''chat''))] @ EvClose # []
   \<and> keeps_pending EvOpen \<and> keeps_pending (EvMessage (Msg (JNum 0) (JStr ''chat'')))
   \<and> fst (checkServerWebRCON cfg_web web_closed_early) =
       Inl (new_Error ''WebRCON connection closed before auth'')
   \<and> on_message cfg_web 1700000000000 ws_initial (Msg (JNum 1700000000000) (JStr ''hostname: X'')) =
       (ws_initial, [])
   \<and> fst (checkServerWebRCON cfg_web web_early_answer) = Inl (new_Error ''WebRCON timeout'')"
proof -
  note inst = nothing_resolves_before_auth_signal [of cfg_web 1700000000000 web_closed_early]
  have c: "constructor_error web_closed_early = None"
    and e: "events web_closed_early = [EvOpen, EvMessage (Msg (JNum 0) (JStr ''chat''))] @ EvClose # []"
    by (simp_all add: web_closed_early_def)
  have k: "\<forall>e \<in> set [EvOpen, EvMessage (Msg (JNum 0) (JStr ''chat''))]. keeps_pending e"
    by simp
  have closed: "fst (checkServerWebRCON cfg_web web_closed_early) =
       Inl (new_Error ''WebRCON connection closed before auth'')"
    using c e k
    by (intro inst [THEN conjunct2, THEN conjunct2, THEN conjunct2, THEN spec, THEN spec, THEN mp]
        conjI)
  have "\<not> authSuccess ws_initial \<and> JNum 1700000000000 \<noteq> JNum (- 1)"
    by (simp add: ws_initial_def)
  then have ignored: "on_message cfg_web 1700000000000 ws_initial
      (Msg (JNum 1700000000000) (JStr ''hostname: X'')) = (ws_initial, [])"
    by (rule inst [THEN conjunct2, THEN conjunct1, rule_format])
  have early: "fst (checkServerWebRCON cfg_web web_early_answer) = Inl (new_Error ''WebRCON timeout'')"
    by (simp add: web_early_answer_def sample_defs run_defs)
  show ?thesis
    using c e closed ignored early by simp
qed

text \<open>
  C8, as the code has it. After the auth signal the command frame is sent once, with the
  value of \<^verbatim>\<open>Date.now()\<close> as its id, and the attempt is resolved by the first frame received
  afterwards whose \<^verbatim>\<open>Identifier\<close> equals that id, when the events in between left the
  attempt pending. The attempt returns \<^verbatim>\<open>true\<close>; the \<^verbatim>\<open>Message\<close> of that frame is not
  returned but printed as a preview: its first 100 characters when it is a string that is
  not empty, the word \<^verbatim>\<open>empty\<close> when it is the empty string. Scenario D: the message
  \<^verbatim>\<open>hostname: X\<close> is printed whole.
\<close>

theorem command_response_resolves_attempt:
  assumes "constructor_error env = None"
    and "events env =
           pre @ EvMessage (Msg (JNum (- 1)) m0) # mid @
           EvMessage (Msg (JNum (now env)) (JStr text)) # rest"
    and "\<forall>e \<in> set pre. keeps_pending e"
    and "\<forall>e \<in> set mid. passes_after_auth (now env) e"
  shows "fst (checkServerWebRCON cfg env) = Inr True
       \<and> response_previews (snd (checkServerWebRCON cfg env)) =
           [if text = [] then ''empty'' else take 100 text]
       \<and> commands_sent (snd (checkServerWebRCON cfg env)) =
           [RconMessage (now env) (RCON_COMMAND cfg) ''monitor'' ''command'']"
proof -
  let ?t = "now env"
  let ?signal = "EvMessage (Msg (JNum (- 1)) m0)"
  let ?answer = "EvMessage (Msg (JNum ?t) (JStr text))"
  let ?st = "ws_initial\<lparr>authSuccess := True, commandId := Some ?t\<rparr>"
  have init: "\<not> authSuccess ws_initial" "outcome ws_initial = None"
    by (simp_all add: ws_initial_def)
  have auth: "authSuccess ?st" "commandId ?st = Some ?t" "outcome ?st = None"
    by (simp_all add: ws_initial_def)
  have signal: "on_event cfg ?t ws_initial ?signal =
      (?st, [WsSend (RconMessage ?t (RCON_COMMAND cfg) ''monitor'' ''command'')])"
    by (simp add: on_event_def on_message_def ws_initial_def)
  have answer: "on_event cfg ?t ?st ?answer =
      (settle (Inr True) ?st, [LogUpWeb (if text = [] then ''empty'' else take 100 text)])"
    by (simp add: on_event_def on_message_def ws_initial_def matches_commandId_def preview_of_def)
  have last: "ws_run cfg ?t ?st (?answer # rest) =
      (Inr True, [LogUpWeb (if text = [] then ''empty'' else take 100 text)])"
    by (simp add: ws_run_step [OF auth(3)] answer ws_run_settled settle_def del: ws_run.simps)
  note middle = ws_run_after_auth_prefix [OF auth assms(4), of cfg ?t "?answer # rest"]
  have from_signal: "ws_run cfg ?t ws_initial (?signal # mid @ ?answer # rest) =
      (fst (ws_run cfg ?t ?st (mid @ ?answer # rest)),
       WsSend (RconMessage ?t (RCON_COMMAND cfg) ''monitor'' ''command'') #
       snd (ws_run cfg ?t ?st (mid @ ?answer # rest)))"
    by (simp add: ws_run_step [OF init(2)] signal del: ws_run.simps)
  note start = ws_run_pending_prefix [OF init assms(3), of cfg ?t "?signal # mid @ ?answer # rest"]
  have run: "fst (ws_run cfg ?t ws_initial (events env)) = Inr True"
    "response_previews (snd (ws_run cfg ?t ws_initial (events env))) =
       [if text = [] then ''empty'' else take 100 text]"
    "commands_sent (snd (ws_run cfg ?t ws_initial (events env))) =
       [RconMessage ?t (RCON_COMMAND cfg) ''monitor'' ''command'']"
    unfolding assms(2)
    using start middle
    by (simp_all add: from_signal last response_previews_def commands_sent_def del: ws_run.simps)
  have "response_previews [WsConnect] = []" and "commands_sent [WsConnect] = []"
    by (simp_all add: response_previews_def commands_sent_def)
  then have "response_previews (snd (checkServerWebRCON cfg env)) =
        response_previews (snd (ws_run cfg ?t ws_initial (events env)))"
    and "commands_sent (snd (checkServerWebRCON cfg env)) =
        commands_sent (snd (ws_run cfg ?t ws_initial (events env)))"
    using response_previews_append [of "[WsConnect]"] commands_sent_append [of "[WsConnect]"]
    by (simp_all add: checkServerWebRCON_snd [OF assms(1)])
  then show ?thesis
    using run by (simp add: checkServerWebRCON_fst [OF assms(1)])
qed

theorem command_response_resolves_attempt_witness:
  "constructor_error web_up = None
   \<and> events web_up =
       [EvOpen] @ EvMessage (Msg (JNum (- 1)) JUndefined) # [] @
       EvMessage (Msg (JNum (now web_up)) (JStr ''hostname: X'')) # []
   \<and> keeps_pending EvOpen
   \<and> fst (checkServerWebRCON cfg_web web_up) = Inr True
   \<and> response_previews (snd (checkServerWebRCON cfg_web web_up)) = [''hostname: X'']
   \<and> commands_sent (snd (checkServerWebRCON cfg_web web_up)) =
       [RconMessage 1700000000000 ''status'' ''monitor'' ''command'']"
proof -
  have c: "constructor_error web_up = None"
    and e: "events web_up =
       [EvOpen] @ EvMessage (Msg (JNum (- 1)) JUndefined) # [] @
       EvMessage (Msg (JNum (now web_up)) (JStr ''hostname: X'')) # []"
    and n: "now web_up = 1700000000000"
    by (simp_all add: web_up_def)
  have k: "\<forall>e \<in> set [EvOpen]. keeps_pending e"
    and p: "\<forall>e \<in> set []. passes_after_auth (now web_up) e"
    by simp_all
  have cmd: "RCON_COMMAND cfg_web = ''status''"
    by (simp add: sample_defs)
  note inst = command_response_resolves_attempt [OF c e k p, of cfg_web]
  have r1: "fst (checkServerWebRCON cfg_web web_up) = Inr True"
    using inst by (rule conjunct1)
  have r2: "response_previews (snd (checkServerWebRCON cfg_web web_up)) = [''hostname: X'']"
    using inst [THEN conjunct2, THEN conjunct1] by simp
  have r3: "commands_sent (snd (checkServerWebRCON cfg_web web_up)) =
       [RconMessage 1700000000000 ''status'' ''monitor'' ''command'']"
    using inst [THEN conjunct2, THEN conjunct2] by (simp add: n cmd)
  show ?thesis
    using c e r1 r2 r3 by simp
qed

text \<open>
  C8, as the specification states it, fails: the attempt returns \<^verbatim>\<open>true\<close>, not the
  message, and of a message of 101 characters only the first 100 are printed.
\<close>

theorem response_is_a_preview_counterexample:
  "fst (checkServerWebRCON cfg_web web_long) = Inr True
   \<and> response_previews (snd (checkServerWebRCON cfg_web web_long)) = [replicate 100 (CHR ''x'')]
   \<and> replicate 100 (CHR ''x'') \<noteq> replicate 101 (CHR ''x'')"
proof -
  have "length (replicate 100 (CHR ''x'')) \<noteq> length (replicate 101 (CHR ''x''))"
    by simp
  then have "replicate 100 (CHR ''x'') \<noteq> replicate 101 (CHR ''x'')"
    by metis
  then show ?thesis
    by (simp add: web_long_def sample_defs run_defs response_previews_def)
qed

end
